theory Spec2Isabelle
  imports
    Complex_Main
    "HOL-Library.AList"
    "HOL-Library.Char_ord"
    "HOL-Library.List_Lexorder"
    "HOL-Library.Product_Lexorder"
begin

section \<open>Data model\<close>

text \<open>
  The engine of the layer coverage viewer works on Python dictionaries. Each dictionary shape
  becomes a record; the Python key \<open>end\<close> is a reserved word here, so the keys carry a
  short prefix naming the shape they belong to:
  \<^item> a stretch record \<open>{"layer", "start", "end", "bill"?, "month"?}\<close> is a \<open>stretch\<close>
    with fields \<open>r_layer\<close>, \<open>r_start\<close>, \<open>r_end\<close>, \<open>r_bill\<close>, \<open>r_month\<close>; an optional key
    that is missing is \<open>None\<close>;
  \<^item> an interval \<open>{"start", "end"}\<close> is an \<open>interval\<close> with fields \<open>i_start\<close>, \<open>i_end\<close>;
  \<^item> an overlap or gap entry \<open>{"start", "end", "len"}\<close> is a \<open>span\<close> with fields
    \<open>s_start\<close>, \<open>s_end\<close>, \<open>s_len\<close>;
  \<^item> a display segment is a \<open>segment\<close>, its key \<open>"layer"\<close> is \<open>seg_layer\<close>;
  \<^item> the progress summary is a \<open>progress\<close>, with entries \<open>layer_progress\<close>
    (\<open>{"len", "pct"}\<close>) and \<open>bill_progress\<close> (\<open>{"bill", "layer", "len", "pct"}\<close>).
  Python integers are unbounded, so they are \<open>int\<close>. A Python \<open>dict\<close> keeps its keys in
  insertion order and assignment to a key that is present keeps the key's position: it is an
  association list updated with \<open>AList.update\<close>. A Python \<open>set\<close> is a \<open>set\<close>. Strings
  are byte strings, so the model covers ASCII text. The percentages are Python floats; they
  are modelled over the reals: rounding is not modelled, the overflow of a quotient is.
\<close>

record stretch =
  r_layer :: string
  r_start :: int
  r_end :: int
  r_bill :: "string option"
  r_month :: "string option"

record interval =
  i_start :: int
  i_end :: int

record span =
  s_start :: int
  s_end :: int
  s_len :: int

record segment =
  chunk_start :: int
  chunk_label :: string
  seg_layer :: string
  rel_start :: int
  rel_end :: int
  abs_start :: int
  abs_end :: int

record segments_result =
  segments :: "segment list"
  layers :: "string list"
  chunks :: "int list"

record layer_progress =
  lp_len :: int
  lp_pct :: real

record bill_progress =
  bp_bill :: string
  bp_layer :: string
  bp_len :: int
  bp_pct :: real

type_synonym ('k, 'v) dict = "('k \<times> 'v) list"

record progress =
  route_extent :: int
  overall_len :: int
  overall_pct :: real
  per_layer :: "(string, layer_progress) dict"
  per_layer_per_bill :: "bill_progress list"

datatype py_error = ValueError | ZeroDivisionError | OverflowError

section \<open>Python primitives\<close>

text \<open>\<open>d.setdefault(k, []).append(v)\<close>, and the equivalent
  \<open>if k not in d: d[k] = []\<close> followed by \<open>d[k].append(v)\<close>.\<close>

definition setdefault_append :: "('k, 'v list) dict \<Rightarrow> 'k \<Rightarrow> 'v \<Rightarrow> ('k, 'v list) dict" where
  "setdefault_append d k v =
     (case map_of d k of
        None \<Rightarrow> AList.update k [v] d
      | Some vs \<Rightarrow> AList.update k (vs @ [v]) d)"

text \<open>\<open>d.get(k, 0)\<close>\<close>

definition get_or_zero :: "('k, int) dict \<Rightarrow> 'k \<Rightarrow> int" where
  "get_or_zero d k = (case map_of d k of None \<Rightarrow> 0 | Some v \<Rightarrow> v)"

text \<open>\<open>min\<close> and \<open>max\<close> of a sequence raise \<open>ValueError\<close> on the empty sequence.\<close>

fun py_min :: "int list \<Rightarrow> py_error + int" where
  "py_min [] = Inl ValueError"
| "py_min (x # xs) = Inr (fold min xs x)"

fun py_max :: "int list \<Rightarrow> py_error + int" where
  "py_max [] = Inl ValueError"
| "py_max (x # xs) = Inr (fold max xs x)"

text \<open>
  True division \<open>a / b\<close> of two integers raises \<open>ZeroDivisionError\<close> when \<open>b\<close> is 0.
  Otherwise the exact quotient is rounded to the nearest double, ties to even; a quotient
  of magnitude \<open>2^1024 - 2^970\<close> or more rounds past the largest double and Python raises
  \<open>OverflowError\<close>. The float product \<open>q * 100\<close> that follows in the source never raises.
\<close>

definition FLOAT_LIMIT :: real where
  "FLOAT_LIMIT = 2 ^ 1024 - 2 ^ 970"

definition true_div :: "int \<Rightarrow> int \<Rightarrow> py_error + real" where
  "true_div a b =
     (if b = 0 then Inl ZeroDivisionError
      else if FLOAT_LIMIT \<le> \<bar>real_of_int a / real_of_int b\<bar> then Inl OverflowError
      else Inr (real_of_int a / real_of_int b))"

text \<open>\<open>bill, layer = key.split("|", 1)\<close>: the split at the first separator; unpacking a
  one-element list into two names raises \<open>ValueError\<close>.\<close>

definition split_first :: "string \<Rightarrow> py_error + string \<times> string" where
  "split_first key =
     (case dropWhile (\<lambda>c. c \<noteq> CHR ''|'') key of
        [] \<Rightarrow> Inl ValueError
      | _ # rest \<Rightarrow> Inr (takeWhile (\<lambda>c. c \<noteq> CHR ''|'') key, rest))"

text \<open>\<open>str(n)\<close> for an integer, used by the f-strings.\<close>

fun str_nat :: "nat \<Rightarrow> string" where
  "str_nat n =
     (if n < 10 then [char_of (48 + n)]
      else str_nat (n div 10) @ [char_of (48 + n mod 10)])"

definition str_int :: "int \<Rightarrow> string" where
  "str_int i = (if i < 0 then CHR ''-'' # str_nat (nat (- i)) else str_nat (nat i))"

text \<open>The characters that \<open>str.strip\<close> removes and that \<open>\s\<close> matches, and those that
  \<open>\d\<close> matches, within ASCII.\<close>

definition is_space :: "char \<Rightarrow> bool" where
  "is_space c = (let n = (of_char c :: nat) in (9 \<le> n \<and> n \<le> 13) \<or> (28 \<le> n \<and> n \<le> 32))"

definition is_digit :: "char \<Rightarrow> bool" where
  "is_digit c = (let n = (of_char c :: nat) in 48 \<le> n \<and> n \<le> 57)"

definition strip :: "string \<Rightarrow> string" where
  "strip s = rev (dropWhile is_space (rev (dropWhile is_space s)))"

text \<open>\<open>int(m[1])\<close> on a string of decimal digits.\<close>

definition int_of_digits :: "string \<Rightarrow> int" where
  "int_of_digits ds = foldl (\<lambda>n c. 10 * n + (int (of_char c) - 48)) 0 ds"

section \<open>Ingestion: \<open>parse_stretch\<close>\<close>

text \<open>
  \<open>re.match(r"^(\d+)\s*-\s*(\d+)$", str(s).strip())\<close>: the three character classes are
  disjoint, so the greedy match never backtracks and is a left-to-right scan. After
  \<open>strip\<close> the text has no trailing newline, so \<open>$\<close> is the end of the text.
\<close>

definition parse_stretch :: "string \<Rightarrow> (int \<times> int) option" where
  "parse_stretch s =
     (if s = [] then None
      else
        let t = strip s;
            m1 = takeWhile is_digit t;
            t1 = dropWhile is_space (dropWhile is_digit t)
        in if m1 = [] then None
           else case t1 of
                  [] \<Rightarrow> None
                | c # t2 \<Rightarrow>
                    if c \<noteq> CHR ''-'' then None
                    else
                      let t3 = dropWhile is_space t2;
                          m2 = takeWhile is_digit t3
                      in if m2 = [] \<or> dropWhile is_digit t3 \<noteq> [] then None
                         else
                           let start = int_of_digits m1; stop = int_of_digits m2
                           in if start \<le> stop then Some (start, stop) else None)"

section \<open>The engine, as defined in \<open>app_dash.py\<close>\<close>

definition CHUNK_SIZE :: int where
  "CHUNK_SIZE = 1000"

subsection \<open>\<open>build_stretch_segments\<close>\<close>

text \<open>
  The \<open>while c <= c_end\<close> loop of one record. It adds to the shared \<open>segments\<close> list and
  \<open>chunks\<close> set; \<open>//\<close> is floor division, as \<open>div\<close> on \<open>int\<close> is.
\<close>

function chunk_loop ::
  "stretch \<Rightarrow> int \<Rightarrow> int \<Rightarrow> segment list \<times> int set \<Rightarrow> segment list \<times> int set" where
  "chunk_loop r c c_end (segs, chks) =
     (if c \<le> c_end then
        let chks' = insert c chks;
            seg_start = max (r_start r) c;
            seg_end = min (r_end r) (c + CHUNK_SIZE);
            segs' =
              (if seg_start < seg_end then
                 segs @
                 [\<lparr>chunk_start = c,
                   chunk_label = str_int c @ ''-'' @ str_int (c + CHUNK_SIZE),
                   seg_layer = r_layer r,
                   rel_start = seg_start - c,
                   rel_end = seg_end - c,
                   abs_start = seg_start,
                   abs_end = seg_end\<rparr>]
               else segs)
        in chunk_loop r (c + CHUNK_SIZE) c_end (segs', chks')
      else (segs, chks))"
  by pat_completeness auto
termination
  by (relation "measure (\<lambda>(r, c, c_end, acc). nat (c_end - c + 1))")
     (auto simp: CHUNK_SIZE_def)

text \<open>The body of \<open>for r in records\<close>.\<close>

definition segment_step ::
  "segment list \<times> string set \<times> int set \<Rightarrow> stretch \<Rightarrow> segment list \<times> string set \<times> int set" where
  "segment_step acc r =
     (case acc of (segs, lyrs, chks) \<Rightarrow>
        let lyrs' = insert (r_layer r) lyrs;
            c_start = (r_start r div CHUNK_SIZE) * CHUNK_SIZE;
            c_end = (r_end r div CHUNK_SIZE) * CHUNK_SIZE
        in case chunk_loop r c_start c_end (segs, chks) of
             (segs', chks') \<Rightarrow> (segs', lyrs', chks'))"

definition build_stretch_segments :: "stretch list \<Rightarrow> segments_result" where
  "build_stretch_segments records =
     (case foldl segment_step ([], {}, {}) records of
        (segs, lyrs, chks) \<Rightarrow>
          \<lparr>segments = sort_key (\<lambda>s. (chunk_start s, seg_layer s, rel_start s)) segs,
           layers = sorted_list_of_set lyrs,
           chunks = sorted_list_of_set chks\<rparr>)"

subsection \<open>\<open>merge_intervals\<close>\<close>

text \<open>
  One iteration of the loop of \<open>merge_intervals\<close>: \<open>last = merged[-1]\<close> is extended in place
  when \<open>cur["start"] <= last["end"]\<close>, otherwise a copy of \<open>cur\<close> is appended. The loop only
  runs on a non-empty \<open>merged\<close>.
\<close>

definition merge_step :: "interval list \<Rightarrow> interval \<Rightarrow> interval list" where
  "merge_step merged cur =
     (let lst = last merged in
      if i_start cur \<le> i_end lst
      then butlast merged @ [lst\<lparr>i_end := max (i_end lst) (i_end cur)\<rparr>]
      else merged @ [cur])"

text \<open>Python's \<open>sorted\<close> is stable, as \<open>sort_key\<close> is.\<close>

definition merge_intervals :: "interval list \<Rightarrow> interval list" where
  "merge_intervals intervals =
     (if intervals = [] then []
      else let sorted_i = sort_key i_start intervals
           in foldl merge_step [hd sorted_i] (tl sorted_i))"

subsection \<open>\<open>find_overlaps_within_layer\<close>\<close>

text \<open>\<open>{"start": r["start"], "end": r["end"]}\<close>\<close>

definition interval_of :: "stretch \<Rightarrow> interval" where
  "interval_of r = \<lparr>i_start = r_start r, i_end = r_end r\<rparr>"

text \<open>\<open>for r in records: by_layer.setdefault(r["layer"], []).append({...})\<close>\<close>

definition group_by_layer :: "stretch list \<Rightarrow> (string, interval list) dict" where
  "group_by_layer records =
     foldl (\<lambda>by_layer r. setdefault_append by_layer (r_layer r) (interval_of r)) [] records"

text \<open>
  The body of the inner loop over \<open>j\<close>; both indices are below \<open>len(intervals)\<close> wherever
  the loops call it.
\<close>

definition overlap_body :: "interval list \<Rightarrow> nat \<Rightarrow> interval list \<Rightarrow> nat \<Rightarrow> interval list" where
  "overlap_body intervals i overlaps j =
     (let a = intervals ! i; b = intervals ! j;
          start = max (i_start a) (i_start b);
          stop = min (i_end a) (i_end b)
      in if start < stop then overlaps @ [\<lparr>i_start = start, i_end = stop\<rparr>] else overlaps)"

text \<open>\<open>for i in range(len(intervals)): for j in range(i + 1, len(intervals)): ...\<close>\<close>

definition pairwise_overlaps :: "interval list \<Rightarrow> interval list" where
  "pairwise_overlaps intervals =
     foldl (\<lambda>overlaps i. foldl (overlap_body intervals i) overlaps [i + 1 ..< length intervals])
       [] [0 ..< length intervals]"

text \<open>\<open>{"start": m["start"], "end": m["end"], "len": m["end"] - m["start"]}\<close>\<close>

definition with_len :: "interval \<Rightarrow> span" where
  "with_len m = \<lparr>s_start = i_start m, s_end = i_end m, s_len = i_end m - i_start m\<rparr>"

definition find_overlaps_within_layer :: "stretch list \<Rightarrow> (string, span list) dict" where
  "find_overlaps_within_layer records =
     foldl (\<lambda>result (layer, intervals).
              AList.update layer (map with_len (merge_intervals (pairwise_overlaps intervals))) result)
       [] (group_by_layer records)"

subsection \<open>\<open>find_gaps_per_layer\<close>\<close>

text \<open>The body of \<open>for seg in merged\<close>, on the state \<open>(pos, gaps)\<close>.\<close>

definition gap_step :: "int \<times> span list \<Rightarrow> interval \<Rightarrow> int \<times> span list" where
  "gap_step st seg =
     (case st of (pos, gaps) \<Rightarrow>
        (max pos (i_end seg),
         if pos < i_start seg
         then gaps @ [\<lparr>s_start = pos, s_end = i_start seg, s_len = i_start seg - pos\<rparr>]
         else gaps))"

text \<open>The body of \<open>for layer, intervals in by_layer.items()\<close>, up to the gaps of the layer.\<close>

definition layer_gaps :: "int \<Rightarrow> int \<Rightarrow> interval list \<Rightarrow> span list" where
  "layer_gaps min_start max_end intervals =
     (let merged = merge_intervals intervals in
      case foldl gap_step (min_start, []) merged of
        (pos, gaps) \<Rightarrow>
          if pos < max_end
          then gaps @ [\<lparr>s_start = pos, s_end = max_end, s_len = max_end - pos\<rparr>]
          else gaps)"

definition find_gaps_per_layer :: "stretch list \<Rightarrow> py_error + (string, span list) dict" where
  "find_gaps_per_layer records =
     (case py_min (map r_start records) of
        Inl e \<Rightarrow> Inl e
      | Inr min_start \<Rightarrow>
          (case py_max (map r_end records) of
             Inl e \<Rightarrow> Inl e
           | Inr max_end \<Rightarrow>
               Inr (foldl (\<lambda>result (layer, intervals).
                             AList.update layer (layer_gaps min_start max_end intervals) result)
                      [] (group_by_layer records))))"

subsection \<open>\<open>filter_records\<close>\<close>

text \<open>
  \<open>flt and r.get(tag) and r[tag] not in flt\<close>: an empty filter list is falsy, and so is a tag
  that is missing or the empty string.
\<close>

definition excluded :: "string list \<Rightarrow> string option \<Rightarrow> bool" where
  "excluded flt tag =
     (flt \<noteq> [] \<and> (case tag of None \<Rightarrow> False | Some t \<Rightarrow> t \<noteq> [] \<and> t \<notin> set flt))"

definition filter_step :: "string list \<Rightarrow> string list \<Rightarrow> stretch list \<Rightarrow> stretch \<Rightarrow> stretch list" where
  "filter_step filter_bills filter_months out r =
     (if excluded filter_bills (r_bill r) then out
      else if excluded filter_months (r_month r) then out
      else out @ [r])"

definition filter_records :: "stretch list \<Rightarrow> string list \<Rightarrow> string list \<Rightarrow> stretch list" where
  "filter_records records filter_bills filter_months =
     foldl (filter_step filter_bills filter_months) [] records"

subsection \<open>\<open>compute_progress\<close>\<close>

text \<open>\<open>(ln / route_extent * 100) if route_extent else 0\<close>\<close>

definition pct_of :: "int \<Rightarrow> int \<Rightarrow> py_error + real" where
  "pct_of lng extent =
     (if extent \<noteq> 0 then
        (case true_div lng extent of Inl e \<Rightarrow> Inl e | Inr q \<Rightarrow> Inr (q * 100))
      else Inr 0)"

text \<open>The body of the first loop, on the two dictionaries.\<close>

definition progress_step ::
  "(string, interval list) dict \<times> (string, int) dict \<Rightarrow> stretch \<Rightarrow>
   (string, interval list) dict \<times> (string, int) dict" where
  "progress_step acc r =
     (case acc of (by_layer_intervals, by_bill_layer) \<Rightarrow>
        (setdefault_append by_layer_intervals (r_layer r) (interval_of r),
         case r_bill r of
           None \<Rightarrow> by_bill_layer
         | Some b \<Rightarrow>
             if b = [] then by_bill_layer
             else
               let key = b @ ''|'' @ r_layer r
               in AList.update key (get_or_zero by_bill_layer key + (r_end r - r_start r))
                    by_bill_layer))"

text \<open>\<open>sum(m["end"] - m["start"] for m in merged)\<close>\<close>

definition total_len :: "interval list \<Rightarrow> int" where
  "total_len merged = sum_list (map (\<lambda>m. i_end m - i_start m) merged)"

fun per_layer_loop ::
  "int \<Rightarrow> (string \<times> interval list) list \<Rightarrow> (string, layer_progress) dict \<Rightarrow>
   py_error + (string, layer_progress) dict" where
  "per_layer_loop extent [] result = Inr result"
| "per_layer_loop extent ((layer, intervals) # rest) result =
     (let merged = merge_intervals intervals; total = total_len merged
      in case pct_of total extent of
           Inl e \<Rightarrow> Inl e
         | Inr p \<Rightarrow>
             per_layer_loop extent rest
               (AList.update layer \<lparr>lp_len = total, lp_pct = p\<rparr> result))"

fun per_bill_loop ::
  "int \<Rightarrow> (string \<times> int) list \<Rightarrow> bill_progress list \<Rightarrow> py_error + bill_progress list" where
  "per_bill_loop extent [] result = Inr result"
| "per_bill_loop extent ((key, lng) # rest) result =
     (case split_first key of
        Inl e \<Rightarrow> Inl e
      | Inr (bill, layer) \<Rightarrow>
          (case pct_of lng extent of
             Inl e \<Rightarrow> Inl e
           | Inr p \<Rightarrow>
               per_bill_loop extent rest
                 (result @ [\<lparr>bp_bill = bill, bp_layer = layer, bp_len = lng, bp_pct = p\<rparr>])))"

definition compute_progress :: "stretch list \<Rightarrow> int \<Rightarrow> py_error + progress" where
  "compute_progress records extent =
     (case foldl progress_step ([], []) records of
        (by_layer_intervals, by_bill_layer) \<Rightarrow>
          (case per_layer_loop extent by_layer_intervals [] of
             Inl e \<Rightarrow> Inl e
           | Inr per_layer_d \<Rightarrow>
               let all_intervals = map interval_of records;
                   merged_all = merge_intervals all_intervals;
                   overall = total_len merged_all
               in case pct_of overall extent of
                    Inl e \<Rightarrow> Inl e
                  | Inr overall_p \<Rightarrow>
                      (case per_bill_loop extent by_bill_layer [] of
                         Inl e \<Rightarrow> Inl e
                       | Inr plb \<Rightarrow>
                           Inr \<lparr>route_extent = extent,
                                overall_len = overall,
                                overall_pct = overall_p,
                                per_layer = per_layer_d,
                                per_layer_per_bill =
                                  sort_key (\<lambda>x. (bp_bill x, bp_layer x)) plb\<rparr>)))"

section \<open>The engine, as defined in \<open>app_streamlit.py\<close>\<close>

text \<open>
  The second front end defines the same six functions again. They are embedded from its own
  text, each name prefixed with \<open>st_\<close>, so that the two can be compared.
\<close>

definition st_CHUNK_SIZE :: int where
  "st_CHUNK_SIZE = 1000"

function st_chunk_loop ::
  "stretch \<Rightarrow> int \<Rightarrow> int \<Rightarrow> segment list \<times> int set \<Rightarrow> segment list \<times> int set" where
  "st_chunk_loop r c c_end (segs, chks) =
     (if c \<le> c_end then
        let chks' = insert c chks;
            seg_start = max (r_start r) c;
            seg_end = min (r_end r) (c + st_CHUNK_SIZE);
            segs' =
              (if seg_start < seg_end then
                 segs @
                 [\<lparr>chunk_start = c,
                   chunk_label = str_int c @ ''-'' @ str_int (c + st_CHUNK_SIZE),
                   seg_layer = r_layer r,
                   rel_start = seg_start - c,
                   rel_end = seg_end - c,
                   abs_start = seg_start,
                   abs_end = seg_end\<rparr>]
               else segs)
        in st_chunk_loop r (c + st_CHUNK_SIZE) c_end (segs', chks')
      else (segs, chks))"
  by pat_completeness auto
termination
  by (relation "measure (\<lambda>(r, c, c_end, acc). nat (c_end - c + 1))")
     (auto simp: st_CHUNK_SIZE_def)

definition st_segment_step ::
  "segment list \<times> string set \<times> int set \<Rightarrow> stretch \<Rightarrow> segment list \<times> string set \<times> int set" where
  "st_segment_step acc r =
     (case acc of (segs, lyrs, chks) \<Rightarrow>
        let lyrs' = insert (r_layer r) lyrs;
            c_start = (r_start r div st_CHUNK_SIZE) * st_CHUNK_SIZE;
            c_end = (r_end r div st_CHUNK_SIZE) * st_CHUNK_SIZE
        in case st_chunk_loop r c_start c_end (segs, chks) of
             (segs', chks') \<Rightarrow> (segs', lyrs', chks'))"

definition st_build_stretch_segments :: "stretch list \<Rightarrow> segments_result" where
  "st_build_stretch_segments records =
     (case foldl st_segment_step ([], {}, {}) records of
        (segs, lyrs, chks) \<Rightarrow>
          \<lparr>segments = sort_key (\<lambda>s. (chunk_start s, seg_layer s, rel_start s)) segs,
           layers = sorted_list_of_set lyrs,
           chunks = sorted_list_of_set chks\<rparr>)"

definition st_merge_step :: "interval list \<Rightarrow> interval \<Rightarrow> interval list" where
  "st_merge_step merged cur =
     (let lst = last merged in
      if i_start cur \<le> i_end lst
      then butlast merged @ [lst\<lparr>i_end := max (i_end lst) (i_end cur)\<rparr>]
      else merged @ [cur])"

definition st_merge_intervals :: "interval list \<Rightarrow> interval list" where
  "st_merge_intervals intervals =
     (if intervals = [] then []
      else let sorted_i = sort_key i_start intervals
           in foldl st_merge_step [hd sorted_i] (tl sorted_i))"

definition st_interval_of :: "stretch \<Rightarrow> interval" where
  "st_interval_of r = \<lparr>i_start = r_start r, i_end = r_end r\<rparr>"

definition st_group_by_layer :: "stretch list \<Rightarrow> (string, interval list) dict" where
  "st_group_by_layer records =
     foldl (\<lambda>by_layer r. setdefault_append by_layer (r_layer r) (st_interval_of r)) [] records"

definition st_overlap_body :: "interval list \<Rightarrow> nat \<Rightarrow> interval list \<Rightarrow> nat \<Rightarrow> interval list" where
  "st_overlap_body intervals i overlaps j =
     (let a = intervals ! i; b = intervals ! j;
          start = max (i_start a) (i_start b);
          stop = min (i_end a) (i_end b)
      in if start < stop then overlaps @ [\<lparr>i_start = start, i_end = stop\<rparr>] else overlaps)"

definition st_pairwise_overlaps :: "interval list \<Rightarrow> interval list" where
  "st_pairwise_overlaps intervals =
     foldl (\<lambda>overlaps i. foldl (st_overlap_body intervals i) overlaps [i + 1 ..< length intervals])
       [] [0 ..< length intervals]"

definition st_with_len :: "interval \<Rightarrow> span" where
  "st_with_len m = \<lparr>s_start = i_start m, s_end = i_end m, s_len = i_end m - i_start m\<rparr>"

definition st_find_overlaps_within_layer :: "stretch list \<Rightarrow> (string, span list) dict" where
  "st_find_overlaps_within_layer records =
     foldl (\<lambda>result (layer, intervals).
              AList.update layer (map st_with_len (st_merge_intervals (st_pairwise_overlaps intervals))) result)
       [] (st_group_by_layer records)"

definition st_gap_step :: "int \<times> span list \<Rightarrow> interval \<Rightarrow> int \<times> span list" where
  "st_gap_step st seg =
     (case st of (pos, gaps) \<Rightarrow>
        (max pos (i_end seg),
         if pos < i_start seg
         then gaps @ [\<lparr>s_start = pos, s_end = i_start seg, s_len = i_start seg - pos\<rparr>]
         else gaps))"

definition st_layer_gaps :: "int \<Rightarrow> int \<Rightarrow> interval list \<Rightarrow> span list" where
  "st_layer_gaps min_start max_end intervals =
     (let merged = st_merge_intervals intervals in
      case foldl st_gap_step (min_start, []) merged of
        (pos, gaps) \<Rightarrow>
          if pos < max_end
          then gaps @ [\<lparr>s_start = pos, s_end = max_end, s_len = max_end - pos\<rparr>]
          else gaps)"

definition st_find_gaps_per_layer :: "stretch list \<Rightarrow> py_error + (string, span list) dict" where
  "st_find_gaps_per_layer records =
     (case py_min (map r_start records) of
        Inl e \<Rightarrow> Inl e
      | Inr min_start \<Rightarrow>
          (case py_max (map r_end records) of
             Inl e \<Rightarrow> Inl e
           | Inr max_end \<Rightarrow>
               Inr (foldl (\<lambda>result (layer, intervals).
                             AList.update layer (st_layer_gaps min_start max_end intervals) result)
                      [] (st_group_by_layer records))))"

definition st_excluded :: "string list \<Rightarrow> string option \<Rightarrow> bool" where
  "st_excluded flt tag =
     (flt \<noteq> [] \<and> (case tag of None \<Rightarrow> False | Some t \<Rightarrow> t \<noteq> [] \<and> t \<notin> set flt))"

definition st_filter_step :: "string list \<Rightarrow> string list \<Rightarrow> stretch list \<Rightarrow> stretch \<Rightarrow> stretch list" where
  "st_filter_step filter_bills filter_months out r =
     (if st_excluded filter_bills (r_bill r) then out
      else if st_excluded filter_months (r_month r) then out
      else out @ [r])"

definition st_filter_records :: "stretch list \<Rightarrow> string list \<Rightarrow> string list \<Rightarrow> stretch list" where
  "st_filter_records records filter_bills filter_months =
     foldl (st_filter_step filter_bills filter_months) [] records"

definition st_pct_of :: "int \<Rightarrow> int \<Rightarrow> py_error + real" where
  "st_pct_of lng extent =
     (if extent \<noteq> 0 then
        (case true_div lng extent of Inl e \<Rightarrow> Inl e | Inr q \<Rightarrow> Inr (q * 100))
      else Inr 0)"

definition st_progress_step ::
  "(string, interval list) dict \<times> (string, int) dict \<Rightarrow> stretch \<Rightarrow>
   (string, interval list) dict \<times> (string, int) dict" where
  "st_progress_step acc r =
     (case acc of (by_layer_intervals, by_bill_layer) \<Rightarrow>
        (setdefault_append by_layer_intervals (r_layer r) (st_interval_of r),
         case r_bill r of
           None \<Rightarrow> by_bill_layer
         | Some b \<Rightarrow>
             if b = [] then by_bill_layer
             else
               let key = b @ ''|'' @ r_layer r
               in AList.update key (get_or_zero by_bill_layer key + (r_end r - r_start r))
                    by_bill_layer))"

definition st_total_len :: "interval list \<Rightarrow> int" where
  "st_total_len merged = sum_list (map (\<lambda>m. i_end m - i_start m) merged)"

fun st_per_layer_loop ::
  "int \<Rightarrow> (string \<times> interval list) list \<Rightarrow> (string, layer_progress) dict \<Rightarrow>
   py_error + (string, layer_progress) dict" where
  "st_per_layer_loop extent [] result = Inr result"
| "st_per_layer_loop extent ((layer, intervals) # rest) result =
     (let merged = st_merge_intervals intervals; total = st_total_len merged
      in case st_pct_of total extent of
           Inl e \<Rightarrow> Inl e
         | Inr p \<Rightarrow>
             st_per_layer_loop extent rest
               (AList.update layer \<lparr>lp_len = total, lp_pct = p\<rparr> result))"

fun st_per_bill_loop ::
  "int \<Rightarrow> (string \<times> int) list \<Rightarrow> bill_progress list \<Rightarrow> py_error + bill_progress list" where
  "st_per_bill_loop extent [] result = Inr result"
| "st_per_bill_loop extent ((key, lng) # rest) result =
     (case split_first key of
        Inl e \<Rightarrow> Inl e
      | Inr (bill, layer) \<Rightarrow>
          (case st_pct_of lng extent of
             Inl e \<Rightarrow> Inl e
           | Inr p \<Rightarrow>
               st_per_bill_loop extent rest
                 (result @ [\<lparr>bp_bill = bill, bp_layer = layer, bp_len = lng, bp_pct = p\<rparr>])))"

definition st_compute_progress :: "stretch list \<Rightarrow> int \<Rightarrow> py_error + progress" where
  "st_compute_progress records extent =
     (case foldl st_progress_step ([], []) records of
        (by_layer_intervals, by_bill_layer) \<Rightarrow>
          (case st_per_layer_loop extent by_layer_intervals [] of
             Inl e \<Rightarrow> Inl e
           | Inr per_layer_d \<Rightarrow>
               let all_intervals = map st_interval_of records;
                   merged_all = st_merge_intervals all_intervals;
                   overall = st_total_len merged_all
               in case st_pct_of overall extent of
                    Inl e \<Rightarrow> Inl e
                  | Inr overall_p \<Rightarrow>
                      (case st_per_bill_loop extent by_bill_layer [] of
                         Inl e \<Rightarrow> Inl e
                       | Inr plb \<Rightarrow>
                           Inr \<lparr>route_extent = extent,
                                overall_len = overall,
                                overall_pct = overall_p,
                                per_layer = per_layer_d,
                                per_layer_per_bill =
                                  sort_key (\<lambda>x. (bp_bill x, bp_layer x)) plb\<rparr>)))"

section \<open>Notions used by the properties\<close>

text \<open>Two intervals are apart when the first ends strictly before the second starts.\<close>

definition apart :: "interval \<Rightarrow> interval \<Rightarrow> bool" where
  "apart a b = (i_end a < i_start b)"

text \<open>An interval encloses another when it starts no later and ends no earlier.\<close>

definition encloses :: "interval \<Rightarrow> interval \<Rightarrow> bool" where
  "encloses m x = (i_start m \<le> i_start x \<and> i_end x \<le> i_end m)"

text \<open>
  The filtering contract in the words of the specification: a record passes an axis if its
  tag is absent, or the filter list of the axis is empty, or the tag is a member of the list.
\<close>

definition spec_passes :: "string list \<Rightarrow> string option \<Rightarrow> bool" where
  "spec_passes flt tag = (case tag of None \<Rightarrow> True | Some t \<Rightarrow> flt = [] \<or> t \<in> set flt)"

text \<open>The same contract, with a tag that is the empty string counted as absent.\<close>

definition passes :: "string list \<Rightarrow> string option \<Rightarrow> bool" where
  "passes flt tag =
     (case tag of None \<Rightarrow> True | Some t \<Rightarrow> t = [] \<or> flt = [] \<or> t \<in> set flt)"

text \<open>
  The overlap detector in the words of the specification: for every unordered pair \<open>(a, b)\<close>
  of a layer's raw intervals the intersection is \<open>[max(a.start, b.start), min(a.end, b.end))\<close>;
  it is kept only if its start is strictly below its end; the kept intersections are merged
  and each merged entry gets \<open>len = end - start\<close>.
\<close>

fun unordered_pairs :: "'a list \<Rightarrow> ('a \<times> 'a) list" where
  "unordered_pairs [] = []"
| "unordered_pairs (x # xs) = map (Pair x) xs @ unordered_pairs xs"

definition intersection :: "interval \<Rightarrow> interval \<Rightarrow> interval" where
  "intersection a b =
     \<lparr>i_start = max (i_start a) (i_start b), i_end = min (i_end a) (i_end b)\<rparr>"

definition spec_intersections :: "interval list \<Rightarrow> interval list" where
  "spec_intersections ivs =
     filter (\<lambda>m. i_start m < i_end m) (map (\<lambda>(a, b). intersection a b) (unordered_pairs ivs))"

definition spec_overlaps :: "interval list \<Rightarrow> span list" where
  "spec_overlaps ivs = map with_len (merge_intervals (spec_intersections ivs))"

text \<open>The raw intervals of one layer, in the order of the records.\<close>

definition layer_intervals :: "stretch list \<Rightarrow> string \<Rightarrow> interval list" where
  "layer_intervals records l = map interval_of (filter (\<lambda>r. r_layer r = l) records)"

text \<open>
  Notions for the progress summary: the percentage as a real number, the test that the
  quotient of a percentage is out of the range of a float, the raw length of a record, the
  composite key \<open>bill|layer\<close> under which a record with a non-empty bill is accumulated, the update the first loop makes to \<open>by_bill_layer\<close> for one record, and the
  entry the last loop builds from one key and its accumulated length.
\<close>

definition pct_val :: "int \<Rightarrow> int \<Rightarrow> real" where
  "pct_val lng extent = (if extent \<noteq> 0 then real_of_int lng / real_of_int extent * 100 else 0)"

definition overflows :: "int \<Rightarrow> int \<Rightarrow> bool" where
  "overflows lng extent =
     (extent \<noteq> 0 \<and> FLOAT_LIMIT \<le> \<bar>real_of_int lng / real_of_int extent\<bar>)"

definition raw_len :: "stretch \<Rightarrow> int" where
  "raw_len r = r_end r - r_start r"

definition billed_key :: "stretch \<Rightarrow> string option" where
  "billed_key r =
     (case r_bill r of
        None \<Rightarrow> None
      | Some b \<Rightarrow> if b = [] then None else Some (b @ ''|'' @ r_layer r))"

definition bill_step :: "(string, int) dict \<Rightarrow> stretch \<Rightarrow> (string, int) dict" where
  "bill_step d r =
     (case billed_key r of
        None \<Rightarrow> d
      | Some key \<Rightarrow> AList.update key (get_or_zero d key + raw_len r) d)"

definition bill_entry :: "int \<Rightarrow> string \<times> int \<Rightarrow> bill_progress" where
  "bill_entry extent kv =
     \<lparr>bp_bill = takeWhile (\<lambda>c. c \<noteq> CHR ''|'') (fst kv),
      bp_layer = tl (dropWhile (\<lambda>c. c \<noteq> CHR ''|'') (fst kv)),
      bp_len = snd kv,
      bp_pct = pct_val (snd kv) extent\<rparr>"

definition layer_entry :: "int \<Rightarrow> interval list \<Rightarrow> layer_progress" where
  "layer_entry extent intervals =
     \<lparr>lp_len = total_len (merge_intervals intervals),
      lp_pct = pct_val (total_len (merge_intervals intervals)) extent\<rparr>"

text \<open>
  One of the quotients that \<open>compute_progress\<close> takes is out of the range of a float: that
  of a layer, the overall one, or that of a (bill, layer) key.
\<close>

definition progress_overflows :: "stretch list \<Rightarrow> int \<Rightarrow> bool" where
  "progress_overflows records extent =
     ((\<exists>kv\<in>set (group_by_layer records).
          overflows (total_len (merge_intervals (snd kv))) extent) \<or>
      overflows (total_len (merge_intervals (map interval_of records))) extent \<or>
      (\<exists>kv\<in>set (foldl bill_step [] records). overflows (snd kv) extent))"

text \<open>
  Notions for the gap detector: the range of positions that a merged interval covers and the
  range of a gap entry, both half-open; the tiles of a layer, its merged coverage followed by
  its gaps; an interval that lies within bounds and is not empty; and the gaps that the walk
  over the merged intervals leaves, from a position up to \<open>max_end\<close>, as a recursion.
\<close>

definition covered :: "interval \<Rightarrow> int set" where
  "covered m = {i_start m ..< i_end m}"

definition gap_range :: "span \<Rightarrow> int set" where
  "gap_range g = {s_start g ..< s_end g}"

definition tiles :: "interval list \<Rightarrow> span list \<Rightarrow> int set list" where
  "tiles merged gaps = map covered merged @ map gap_range gaps"

definition in_range :: "int \<Rightarrow> int \<Rightarrow> interval \<Rightarrow> bool" where
  "in_range lo hi m = (lo \<le> i_start m \<and> i_start m < i_end m \<and> i_end m \<le> hi)"

fun gap_walk :: "int \<Rightarrow> int \<Rightarrow> interval list \<Rightarrow> span list" where
  "gap_walk pos max_end [] =
     (if pos < max_end then [\<lparr>s_start = pos, s_end = max_end, s_len = max_end - pos\<rparr>] else [])"
| "gap_walk pos max_end (seg # rest) =
     (if pos < i_start seg
      then [\<lparr>s_start = pos, s_end = i_start seg, s_len = i_start seg - pos\<rparr>] else []) @
     gap_walk (max pos (i_end seg)) max_end rest"

section \<open>Dictionaries\<close>

lemma update_fresh: "k \<notin> fst ` set al \<Longrightarrow> AList.update k v al = al @ [(k, v)]"
  by (induction al) auto

lemma map_of_setdefault_append:
  "map_of (setdefault_append d k v) =
     (map_of d)(k \<mapsto> (case map_of d k of None \<Rightarrow> [v] | Some vs \<Rightarrow> vs @ [v]))"
  by (simp add: setdefault_append_def update_conv' split: option.splits)

lemma distinct_setdefault_append:
  "distinct (map fst d) \<Longrightarrow> distinct (map fst (setdefault_append d k v))"
  by (simp add: setdefault_append_def distinct_update split: option.splits)

lemma keys_setdefault_append:
  "fst ` set (setdefault_append d k v) = insert k (fst ` set d)"
  by (simp add: setdefault_append_def dom_update split: option.splits)

text \<open>The intervals of the records of one layer, in the order of the records.\<close>

lemma grouping_loop:
  "map_of (foldl (\<lambda>d r. setdefault_append d (r_layer r) (f r)) d rs) l =
     (case map_of d l of
        None \<Rightarrow> (if filter (\<lambda>r. r_layer r = l) rs = [] then None
                 else Some (map f (filter (\<lambda>r. r_layer r = l) rs)))
      | Some vs \<Rightarrow> Some (vs @ map f (filter (\<lambda>r. r_layer r = l) rs)))"
proof (induction rs arbitrary: d)
  case Nil
  then show ?case by (simp split: option.splits)
next
  case (Cons r rs)
  show ?case
    by (simp add: Cons.IH map_of_setdefault_append split: option.splits)
qed

lemma grouping_loop_distinct:
  "distinct (map fst d) \<Longrightarrow>
   distinct (map fst (foldl (\<lambda>d r. setdefault_append d (r_layer r) (f r)) d rs))"
  by (induction rs arbitrary: d) (simp_all add: distinct_setdefault_append)

lemma grouping_loop_keys:
  "fst ` set (foldl (\<lambda>d r. setdefault_append d (r_layer r) (f r)) d rs) =
     fst ` set d \<union> r_layer ` set rs"
  by (induction rs arbitrary: d) (simp_all add: keys_setdefault_append)

lemma map_of_group_by_layer:
  "map_of (group_by_layer records) l =
     (if l \<in> r_layer ` set records
      then Some (map interval_of (filter (\<lambda>r. r_layer r = l) records))
      else None)"
proof -
  have "(filter (\<lambda>r. r_layer r = l) records = []) = (l \<notin> r_layer ` set records)"
    by (auto simp: filter_empty_conv)
  then show ?thesis
    by (simp add: group_by_layer_def grouping_loop)
qed

lemma distinct_group_by_layer: "distinct (map fst (group_by_layer records))"
  by (simp add: group_by_layer_def grouping_loop_distinct)

lemma keys_group_by_layer: "fst ` set (group_by_layer records) = r_layer ` set records"
  by (simp add: group_by_layer_def grouping_loop_keys)

text \<open>
  A loop \<open>for k, v in items: result[k] = f(v)\<close> over distinct keys builds the list of the
  \<open>(k, f(v))\<close> in the order of the items.
\<close>

lemma result_loop:
  assumes "distinct (map fst items)" and "fst ` set acc \<inter> fst ` set items = {}"
  shows "foldl (\<lambda>result (k, v). AList.update k (f v) result) acc items =
         acc @ map (\<lambda>(k, v). (k, f v)) items"
  using assms
proof (induction items arbitrary: acc)
  case Nil
  then show ?case by simp
next
  case (Cons kv items)
  obtain k v where kv: "kv = (k, v)" by (cases kv)
  have fresh: "k \<notin> fst ` set acc"
    using Cons.prems(2) unfolding kv by auto
  have step: "AList.update k (f v) acc = acc @ [(k, f v)]"
    using fresh by (rule update_fresh)
  have disj: "fst ` set (acc @ [(k, f v)]) \<inter> fst ` set items = {}"
    using Cons.prems unfolding kv by auto
  have "foldl (\<lambda>result (k, v). AList.update k (f v) result) (acc @ [(k, f v)]) items =
        (acc @ [(k, f v)]) @ map (\<lambda>(k, v). (k, f v)) items"
    using Cons.prems(1) disj by (intro Cons.IH) simp_all
  then show ?case
    by (simp add: kv step)
qed

lemma result_loop_empty:
  "distinct (map fst items) \<Longrightarrow>
   foldl (\<lambda>result (k, v). AList.update k (f v) result) [] items =
     map (\<lambda>(k, v). (k, f v)) items"
  using result_loop [of items "[]" f] by simp

lemma map_of_mapped_values:
  "map_of (map (\<lambda>(k, v). (k, f v)) items) l = map_option f (map_of items l)"
  by (induction items) auto

lemma fold_min_le: "fold min xs (x::int) \<le> x \<and> (\<forall>y\<in>set xs. fold min xs x \<le> y)"
proof (induction xs arbitrary: x)
  case Nil
  then show ?case by simp
next
  case (Cons a xs)
  have "fold min xs (min a x) \<le> min a x \<and> (\<forall>y\<in>set xs. fold min xs (min a x) \<le> y)"
    by (rule Cons.IH)
  then show ?case by auto
qed

lemma fold_max_ge: "x \<le> fold max xs (x::int) \<and> (\<forall>y\<in>set xs. y \<le> fold max xs x)"
proof (induction xs arbitrary: x)
  case Nil
  then show ?case by simp
next
  case (Cons a xs)
  have "max a x \<le> fold max xs (max a x) \<and> (\<forall>y\<in>set xs. y \<le> fold max xs (max a x))"
    by (rule Cons.IH)
  then show ?case by auto
qed

lemma fold_min_mem: "fold min xs (x::int) \<in> insert x (set xs)"
  by (induction xs arbitrary: x) (auto simp: min_def)

lemma fold_max_mem: "fold max xs (x::int) \<in> insert x (set xs)"
  by (induction xs arbitrary: x) (auto simp: max_def)

section \<open>Properties of the interval merger\<close>

lemma merge_step_nonempty: "merge_step merged cur \<noteq> []"
  by (simp add: merge_step_def Let_def)

lemma merge_step_last_start:
  "merged \<noteq> [] \<Longrightarrow> i_start (last merged) \<le> i_start cur \<Longrightarrow>
   i_start (last merged) \<le> i_start (last (merge_step merged cur))"
  by (simp add: merge_step_def Let_def)

lemma merge_step_apart:
  assumes "merged \<noteq> []" and "successively apart merged"
  shows "successively apart (merge_step merged cur)"
proof -
  obtain ms l where m: "merged = ms @ [l]"
    using assms(1) by (metis append_butlast_last_id)
  show ?thesis
    using assms(2) unfolding m
    by (auto simp: merge_step_def Let_def successively_append_iff apart_def)
qed

lemma merge_step_sorted:
  assumes "merged \<noteq> []" and "sorted (map i_start merged)"
    and "i_start (last merged) \<le> i_start cur"
  shows "sorted (map i_start (merge_step merged cur))"
proof -
  obtain ms l where m: "merged = ms @ [l]"
    using assms(1) by (metis append_butlast_last_id)
  show ?thesis
    using assms(2,3) unfolding m
    by (auto simp: merge_step_def Let_def sorted_append)
qed

lemma merge_loop_invariant:
  assumes "merged \<noteq> []" and "successively apart merged" and "sorted (map i_start merged)"
    and "sorted (map i_start xs)" and "\<forall>x\<in>set xs. i_start (last merged) \<le> i_start x"
  shows "successively apart (foldl merge_step merged xs) \<and>
         sorted (map i_start (foldl merge_step merged xs))"
  using assms
proof (induction xs arbitrary: merged)
  case Nil
  then show ?case by simp
next
  case (Cons x xs)
  have le: "i_start (last merged) \<le> i_start x"
    using Cons.prems(5) by simp
  have rest: "\<forall>y\<in>set xs. i_start (last (merge_step merged x)) \<le> i_start y"
  proof
    fix y assume y: "y \<in> set xs"
    have "i_start (last (merge_step merged x)) \<le> i_start x"
      using Cons.prems(1) le by (auto simp: merge_step_def Let_def)
    moreover have "i_start x \<le> i_start y"
      using Cons.prems(4) y by simp
    ultimately show "i_start (last (merge_step merged x)) \<le> i_start y" by simp
  qed
  have "successively apart (foldl merge_step (merge_step merged x) xs) \<and>
        sorted (map i_start (foldl merge_step (merge_step merged x) xs))"
  proof (rule Cons.IH)
    show "merge_step merged x \<noteq> []" by (rule merge_step_nonempty)
    show "successively apart (merge_step merged x)"
      using Cons.prems(1,2) by (rule merge_step_apart)
    show "sorted (map i_start (merge_step merged x))"
      using Cons.prems(1,3) le by (rule merge_step_sorted)
    show "sorted (map i_start xs)" using Cons.prems(4) by simp
    show "\<forall>y\<in>set xs. i_start (last (merge_step merged x)) \<le> i_start y" by (rule rest)
  qed
  then show ?case by simp
qed

lemma sorted_hd_tl:
  assumes "sorted (map f ys)" and "ys \<noteq> []"
  shows "sorted (map f (tl ys)) \<and> (\<forall>x\<in>set (tl ys). f (hd ys) \<le> f x)"
  using assms by (cases ys) auto

lemma merge_intervals_apart_sorted:
  "successively apart (merge_intervals xs) \<and> sorted (map i_start (merge_intervals xs))"
proof (cases "xs = []")
  case True
  then show ?thesis by (simp add: merge_intervals_def)
next
  case False
  define ys where "ys = sort_key i_start xs"
  have ne: "ys \<noteq> []"
    using False unfolding ys_def by (metis set_sort set_empty)
  have srt: "sorted (map i_start ys)"
    unfolding ys_def by (rule sorted_sort_key)
  have "successively apart (foldl merge_step [hd ys] (tl ys)) \<and>
        sorted (map i_start (foldl merge_step [hd ys] (tl ys)))"
    using sorted_hd_tl [OF srt ne] by (intro merge_loop_invariant) simp_all
  then show ?thesis
    using False by (simp add: merge_intervals_def Let_def ys_def)
qed

text \<open>
  The merger neither loses nor invents coverage: each step of the loop keeps the union of the
  covered positions, and keeps every interval seen so far within one interval of the result.
\<close>

lemma merge_step_last_le:
  "merged \<noteq> [] \<Longrightarrow> i_start (last merged) \<le> i_start cur \<Longrightarrow>
   i_start (last (merge_step merged cur)) \<le> i_start cur"
  by (simp add: merge_step_def Let_def)

lemma merge_step_cover:
  assumes "merged \<noteq> []" and "i_start (last merged) \<le> i_start cur"
  shows "(\<Union>m\<in>set (merge_step merged cur). covered m) =
         (\<Union>m\<in>set merged. covered m) \<union> covered cur"
proof -
  obtain ms l where m: "merged = ms @ [l]"
    using assms(1) by (metis append_butlast_last_id)
  have le: "i_start l \<le> i_start cur"
    using assms(2) unfolding m by simp
  have ext: "i_start cur \<le> i_end l \<Longrightarrow>
      covered (l\<lparr>i_end := max (i_end l) (i_end cur)\<rparr>) = covered l \<union> covered cur"
    using le by (auto simp: covered_def)
  show ?thesis
    unfolding m using ext by (auto simp: merge_step_def Let_def)
qed

lemma merge_step_encloses:
  assumes "merged \<noteq> []" and "i_start (last merged) \<le> i_start cur"
    and "(\<exists>m\<in>set merged. encloses m x) \<or> x = cur"
  shows "\<exists>m\<in>set (merge_step merged cur). encloses m x"
proof -
  obtain ms l where m: "merged = ms @ [l]"
    using assms(1) by (metis append_butlast_last_id)
  have le: "i_start l \<le> i_start cur"
    using assms(2) unfolding m by simp
  show ?thesis
    using assms(3) le unfolding m
    by (auto simp: merge_step_def Let_def encloses_def)
qed

lemma merge_loop_cover:
  assumes "merged \<noteq> []" and "sorted (map i_start xs)"
    and "\<forall>x\<in>set xs. i_start (last merged) \<le> i_start x"
  shows "(\<Union>m\<in>set (foldl merge_step merged xs). covered m) =
           (\<Union>m\<in>set merged. covered m) \<union> (\<Union>x\<in>set xs. covered x) \<and>
         (\<forall>y. (\<exists>m\<in>set merged. encloses m y) \<or> y \<in> set xs \<longrightarrow>
              (\<exists>m\<in>set (foldl merge_step merged xs). encloses m y))"
  using assms
proof (induction xs arbitrary: merged)
  case Nil
  then show ?case by simp
next
  case (Cons x xs)
  have le: "i_start (last merged) \<le> i_start x"
    using Cons.prems(3) by simp
  have ne: "merge_step merged x \<noteq> []"
    by (rule merge_step_nonempty)
  have srt: "sorted (map i_start xs)"
    using Cons.prems(2) by simp
  have rest: "\<forall>y\<in>set xs. i_start (last (merge_step merged x)) \<le> i_start y"
  proof
    fix y assume "y \<in> set xs"
    then have "i_start x \<le> i_start y"
      using Cons.prems(2) by simp
    then show "i_start (last (merge_step merged x)) \<le> i_start y"
      using merge_step_last_le [OF Cons.prems(1) le] by simp
  qed
  note ih = Cons.IH [OF ne srt rest]
  have cov: "(\<Union>m\<in>set (foldl merge_step merged (x # xs)). covered m) =
           (\<Union>m\<in>set merged. covered m) \<union> (\<Union>y\<in>set (x # xs). covered y)"
    using ih merge_step_cover [OF Cons.prems(1) le] by (simp add: Un_assoc)
  have enc: "\<forall>y. (\<exists>m\<in>set merged. encloses m y) \<or> y \<in> set (x # xs) \<longrightarrow>
              (\<exists>m\<in>set (foldl merge_step merged (x # xs)). encloses m y)"
  proof (intro allI impI)
    fix y assume y: "(\<exists>m\<in>set merged. encloses m y) \<or> y \<in> set (x # xs)"
    have "(\<exists>m\<in>set (merge_step merged x). encloses m y) \<or> y \<in> set xs"
    proof (cases "y \<in> set xs")
      case True
      then show ?thesis by simp
    next
      case False
      then have "(\<exists>m\<in>set merged. encloses m y) \<or> y = x"
        using y by auto
      then show ?thesis
        using merge_step_encloses [OF Cons.prems(1) le] by blast
    qed
    then have "\<exists>m\<in>set (foldl merge_step (merge_step merged x) xs). encloses m y"
      using ih by blast
    then show "\<exists>m\<in>set (foldl merge_step merged (x # xs)). encloses m y"
      by simp
  qed
  show ?case
    using cov enc by blast
qed

lemma merge_intervals_cover:
  "(\<Union>m\<in>set (merge_intervals xs). covered m) = (\<Union>x\<in>set xs. covered x) \<and>
   (\<forall>x\<in>set xs. \<exists>m\<in>set (merge_intervals xs). encloses m x)"
proof (cases "xs = []")
  case True
  then show ?thesis by (simp add: merge_intervals_def)
next
  case False
  define ys where "ys = sort_key i_start xs"
  have ne: "ys \<noteq> []"
    using False unfolding ys_def by (metis set_sort set_empty)
  have srt: "sorted (map i_start ys)"
    unfolding ys_def by (rule sorted_sort_key)
  have ys: "ys = hd ys # tl ys"
    using ne by simp
  have sets: "set xs = insert (hd ys) (set (tl ys))"
    using ys unfolding ys_def by (metis list.simps(15) set_sort)
  have loop: "(\<Union>m\<in>set (foldl merge_step [hd ys] (tl ys)). covered m) =
           (\<Union>m\<in>set [hd ys]. covered m) \<union> (\<Union>x\<in>set (tl ys). covered x) \<and>
         (\<forall>y. (\<exists>m\<in>set [hd ys]. encloses m y) \<or> y \<in> set (tl ys) \<longrightarrow>
              (\<exists>m\<in>set (foldl merge_step [hd ys] (tl ys)). encloses m y))"
    using sorted_hd_tl [OF srt ne] by (intro merge_loop_cover) simp_all
  have out: "merge_intervals xs = foldl merge_step [hd ys] (tl ys)"
    using False by (simp add: merge_intervals_def Let_def ys_def)
  have self: "encloses (hd ys) (hd ys)"
    by (simp add: encloses_def)
  have cov: "(\<Union>m\<in>set (merge_intervals xs). covered m) = (\<Union>x\<in>set xs. covered x)"
    unfolding out sets using loop by auto
  have enc: "\<forall>x\<in>set xs. \<exists>m\<in>set (merge_intervals xs). encloses m x"
    unfolding out sets using loop self by auto
  show ?thesis
    using cov enc by blast
qed

lemma successively_apart_sorted_wrt:
  "successively apart ms \<Longrightarrow> sorted (map i_start ms) \<Longrightarrow> sorted_wrt apart ms"
proof (induction ms)
  case Nil
  then show ?case by simp
next
  case (Cons m ms)
  have tl: "sorted_wrt apart ms"
    using Cons by (cases ms) auto
  have "\<forall>x\<in>set ms. apart m x"
  proof (cases ms)
    case Nil
    then show ?thesis by simp
  next
    case (Cons y ys)
    have "i_end m < i_start y"
      using Cons.prems(1) Cons by (simp add: apart_def)
    moreover have "\<forall>x\<in>set ms. i_start y \<le> i_start x"
      using Cons.prems(2) Cons by auto
    ultimately show ?thesis
      by (auto simp: apart_def)
  qed
  then show ?case using tl by simp
qed

lemma sorted_wrt_pair:
  "sorted_wrt P xs \<Longrightarrow> x \<in> set xs \<Longrightarrow> y \<in> set xs \<Longrightarrow> x = y \<or> P x y \<or> P y x"
  by (induction xs) auto

lemma merge_intervals_touching:
  assumes "a \<in> set xs" and "b \<in> set xs"
    and "i_start a \<le> i_start b" and "i_start b \<le> i_end a" and "i_start b \<le> i_end b"
  shows "\<exists>m\<in>set (merge_intervals xs). encloses m a \<and> encloses m b"
proof -
  obtain m where m: "m \<in> set (merge_intervals xs)" and ma: "encloses m a"
    using merge_intervals_cover assms(1) by blast
  obtain m' where m': "m' \<in> set (merge_intervals xs)" and mb: "encloses m' b"
    using merge_intervals_cover assms(2) by blast
  have "sorted_wrt apart (merge_intervals xs)"
    using merge_intervals_apart_sorted [of xs] by (intro successively_apart_sorted_wrt) simp_all
  then have "m = m' \<or> apart m m' \<or> apart m' m"
    using m m' by (rule sorted_wrt_pair)
  moreover have "\<not> apart m m'"
    using ma mb assms(3,4) by (simp add: apart_def encloses_def)
  moreover have "\<not> apart m' m"
    using ma mb assms(3,5) by (simp add: apart_def encloses_def)
  ultimately have "m = m'" by blast
  then show ?thesis
    using m ma mb by blast
qed


lemma merge_step_bounds:
  assumes "merged \<noteq> []"
  shows "i_start ` set (merge_step merged cur) \<subseteq> insert (i_start cur) (i_start ` set merged) \<and>
         i_end ` set (merge_step merged cur) \<subseteq> insert (i_end cur) (i_end ` set merged)"
proof -
  obtain ms l where m: "merged = ms @ [l]"
    using assms by (metis append_butlast_last_id)
  show ?thesis
    unfolding m by (auto simp: merge_step_def Let_def max_def)
qed

lemma merge_loop_bounds:
  assumes "merged \<noteq> []"
  shows "i_start ` set (foldl merge_step merged xs) \<subseteq> i_start ` (set merged \<union> set xs) \<and>
         i_end ` set (foldl merge_step merged xs) \<subseteq> i_end ` (set merged \<union> set xs)"
  using assms
proof (induction xs arbitrary: merged)
  case Nil
  then show ?case by simp
next
  case (Cons x xs)
  have "i_start ` set (foldl merge_step (merge_step merged x) xs) \<subseteq>
          i_start ` (set (merge_step merged x) \<union> set xs) \<and>
        i_end ` set (foldl merge_step (merge_step merged x) xs) \<subseteq>
          i_end ` (set (merge_step merged x) \<union> set xs)"
    by (rule Cons.IH) (rule merge_step_nonempty)
  moreover have "i_start ` (set (merge_step merged x) \<union> set xs) \<subseteq>
      i_start ` (set merged \<union> set (x # xs))"
    using merge_step_bounds [OF Cons.prems, of x] by auto
  moreover have "i_end ` (set (merge_step merged x) \<union> set xs) \<subseteq>
      i_end ` (set merged \<union> set (x # xs))"
    using merge_step_bounds [OF Cons.prems, of x] by auto
  ultimately have "i_start ` set (foldl merge_step (merge_step merged x) xs) \<subseteq>
          i_start ` (set merged \<union> set (x # xs)) \<and>
        i_end ` set (foldl merge_step (merge_step merged x) xs) \<subseteq>
          i_end ` (set merged \<union> set (x # xs))"
    by (meson subset_trans)
  then show ?case
    by simp
qed

lemma merge_intervals_bounds:
  "i_start ` set (merge_intervals xs) \<subseteq> i_start ` set xs \<and>
   i_end ` set (merge_intervals xs) \<subseteq> i_end ` set xs"
proof (cases "xs = []")
  case True
  then show ?thesis by (simp add: merge_intervals_def)
next
  case False
  define ys where "ys = sort_key i_start xs"
  have ne: "ys \<noteq> []"
    using False unfolding ys_def by (metis set_sort set_empty)
  have "set xs = set (hd ys # tl ys)"
    using ne unfolding ys_def by (metis list.collapse set_sort)
  then have sets: "set [hd ys] \<union> set (tl ys) = set xs"
    by simp
  have out: "merge_intervals xs = foldl merge_step [hd ys] (tl ys)"
    using False by (simp add: merge_intervals_def Let_def ys_def)
  show ?thesis
    unfolding out using merge_loop_bounds [of "[hd ys]" "tl ys"] unfolding sets by simp
qed


text \<open>
  Claim C1. For every list of intervals, \<open>merge_intervals\<close> returns a list sorted ascending
  by start in which every adjacent pair satisfies \<open>result[i].end < result[i+1].start\<close>
  strictly, so that no two output intervals touch or overlap. The output covers exactly the
  positions that the input covers; every input interval lies within one output interval, and
  every output interval starts where an input starts and ends where an input ends. Touching
  inputs are coalesced, in a list of any length: two inputs of which the second starts no
  earlier than the first starts and no later than the first ends (the second with
  \<open>start \<le> end\<close>) lie within the same output interval. Of two intervals given in start
  order of which the second starts no later than the first ends, the result is the one
  interval from the first start to the larger end, and \<open>[0,10)\<close>, \<open>[10,20)\<close> merge into
  \<open>[0,20)\<close>. The empty input yields the empty list.
\<close>

theorem merge_intervals_sorted_disjoint:
  "sorted (map i_start (merge_intervals xs)) \<and>
   (\<forall>i. Suc i < length (merge_intervals xs) \<longrightarrow>
        i_end (merge_intervals xs ! i) < i_start (merge_intervals xs ! Suc i)) \<and>
   (\<Union>m\<in>set (merge_intervals xs). covered m) = (\<Union>x\<in>set xs. covered x) \<and>
   (\<forall>x\<in>set xs. \<exists>m\<in>set (merge_intervals xs). encloses m x) \<and>
   i_start ` set (merge_intervals xs) \<subseteq> i_start ` set xs \<and>
   i_end ` set (merge_intervals xs) \<subseteq> i_end ` set xs \<and>
   (\<forall>x\<in>set xs. \<forall>y\<in>set xs.
      i_start x \<le> i_start y \<and> i_start y \<le> i_end x \<and> i_start y \<le> i_end y \<longrightarrow>
      (\<exists>m\<in>set (merge_intervals xs). encloses m x \<and> encloses m y)) \<and>
   (i_start a \<le> i_start b \<and> i_start b \<le> i_end a \<longrightarrow>
        merge_intervals [a, b] = [a\<lparr>i_end := max (i_end a) (i_end b)\<rparr>]) \<and>
   merge_intervals [\<lparr>i_start = 0, i_end = 10\<rparr>, \<lparr>i_start = 10, i_end = 20\<rparr>] =
     [\<lparr>i_start = 0, i_end = 20\<rparr>] \<and>
   merge_intervals [] = []"
proof -
  have chain: "successively apart (merge_intervals xs)"
    using merge_intervals_apart_sorted by blast
  have srt: "sorted (map i_start (merge_intervals xs))"
    using merge_intervals_apart_sorted by blast
  have adj: "\<forall>i. Suc i < length (merge_intervals xs) \<longrightarrow>
        i_end (merge_intervals xs ! i) < i_start (merge_intervals xs ! Suc i)"
    using chain by (simp add: successively_conv_nth apart_def)
  have cov: "(\<Union>m\<in>set (merge_intervals xs). covered m) = (\<Union>x\<in>set xs. covered x)"
    using merge_intervals_cover by blast
  have enc: "\<forall>x\<in>set xs. \<exists>m\<in>set (merge_intervals xs). encloses m x"
    using merge_intervals_cover by blast
  have st: "i_start ` set (merge_intervals xs) \<subseteq> i_start ` set xs"
    using merge_intervals_bounds by blast
  have en: "i_end ` set (merge_intervals xs) \<subseteq> i_end ` set xs"
    using merge_intervals_bounds by blast
  have touch: "\<forall>x\<in>set xs. \<forall>y\<in>set xs.
      i_start x \<le> i_start y \<and> i_start y \<le> i_end x \<and> i_start y \<le> i_end y \<longrightarrow>
      (\<exists>m\<in>set (merge_intervals xs). encloses m x \<and> encloses m y)"
    using merge_intervals_touching by blast
  have two: "i_start a \<le> i_start b \<and> i_start b \<le> i_end a \<longrightarrow>
        merge_intervals [a, b] = [a\<lparr>i_end := max (i_end a) (i_end b)\<rparr>]"
    by (simp add: merge_intervals_def merge_step_def)
  have ex: "merge_intervals [\<lparr>i_start = 0, i_end = 10\<rparr>, \<lparr>i_start = 10, i_end = 20\<rparr>] =
     [\<lparr>i_start = 0, i_end = 20\<rparr>]"
    by (simp add: merge_intervals_def merge_step_def)
  have emp: "merge_intervals [] = []"
    by (simp add: merge_intervals_def)
  show ?thesis
    using srt adj cov enc st en touch two ex emp by (intro conjI)
qed

theorem merge_intervals_sorted_disjoint_witness:
  "merge_intervals
     [\<lparr>i_start = 30, i_end = 40\<rparr>, \<lparr>i_start = 0, i_end = 10\<rparr>, \<lparr>i_start = 10, i_end = 20\<rparr>] =
     [\<lparr>i_start = 0, i_end = 20\<rparr>, \<lparr>i_start = 30, i_end = 40\<rparr>] \<and>
   Suc 0 < length (merge_intervals
     [\<lparr>i_start = 30, i_end = 40\<rparr>, \<lparr>i_start = 0, i_end = 10\<rparr>, \<lparr>i_start = 10, i_end = 20\<rparr>]) \<and>
   i_end (merge_intervals
     [\<lparr>i_start = 30, i_end = 40\<rparr>, \<lparr>i_start = 0, i_end = 10\<rparr>, \<lparr>i_start = 10, i_end = 20\<rparr>] ! 0)
     < i_start (merge_intervals
     [\<lparr>i_start = 30, i_end = 40\<rparr>, \<lparr>i_start = 0, i_end = 10\<rparr>, \<lparr>i_start = 10, i_end = 20\<rparr>] ! Suc 0) \<and>
   i_start \<lparr>i_start = 0, i_end = 10\<rparr> \<le> i_start \<lparr>i_start = 10, i_end = 20\<rparr> \<and>
   i_start \<lparr>i_start = 10, i_end = 20\<rparr> \<le> i_end \<lparr>i_start = 0, i_end = 10\<rparr> \<and>
   i_start \<lparr>i_start = 10, i_end = 20\<rparr> \<le> i_end \<lparr>i_start = 10, i_end = 20\<rparr> \<and>
   encloses \<lparr>i_start = 0, i_end = 20\<rparr> \<lparr>i_start = 0, i_end = 10\<rparr> \<and>
   encloses \<lparr>i_start = 0, i_end = 20\<rparr> \<lparr>i_start = 10, i_end = 20\<rparr>"
proof -
  let ?xs = "[\<lparr>i_start = 30, i_end = 40\<rparr>, \<lparr>i_start = 0, i_end = 10\<rparr>, \<lparr>i_start = 10, i_end = 20\<rparr>]"
  let ?a = "\<lparr>i_start = 0, i_end = 10\<rparr>"
  let ?b = "\<lparr>i_start = 10, i_end = 20\<rparr>"
  have ev: "merge_intervals ?xs = [\<lparr>i_start = 0, i_end = 20\<rparr>, \<lparr>i_start = 30, i_end = 40\<rparr>]"
    by (simp add: merge_intervals_def merge_step_def)
  note t = merge_intervals_sorted_disjoint [of ?xs]
  have adj: "\<forall>i. Suc i < length (merge_intervals ?xs) \<longrightarrow>
        i_end (merge_intervals ?xs ! i) < i_start (merge_intervals ?xs ! Suc i)"
    by (rule t [THEN conjunct2, THEN conjunct1])
  have len: "Suc 0 < length (merge_intervals ?xs)"
    by (simp add: ev)
  have gap: "i_end (merge_intervals ?xs ! 0) < i_start (merge_intervals ?xs ! Suc 0)"
    using adj len by blast
  have touch: "\<forall>x\<in>set ?xs. \<forall>y\<in>set ?xs.
      i_start x \<le> i_start y \<and> i_start y \<le> i_end x \<and> i_start y \<le> i_end y \<longrightarrow>
      (\<exists>m\<in>set (merge_intervals ?xs). encloses m x \<and> encloses m y)"
    by (rule t [THEN conjunct2, THEN conjunct2, THEN conjunct2, THEN conjunct2,
          THEN conjunct2, THEN conjunct2, THEN conjunct1])
  have hyp: "i_start ?a \<le> i_start ?b \<and> i_start ?b \<le> i_end ?a \<and> i_start ?b \<le> i_end ?b"
    by simp
  have "\<exists>m\<in>set (merge_intervals ?xs). encloses m ?a \<and> encloses m ?b"
    using touch [THEN bspec, of ?a, THEN bspec, of ?b] hyp by simp
  then have both: "encloses \<lparr>i_start = 0, i_end = 20\<rparr> ?a \<and> encloses \<lparr>i_start = 0, i_end = 20\<rparr> ?b"
    unfolding ev by (simp add: encloses_def)
  show ?thesis
    using ev len gap hyp both by (intro conjI) simp_all
qed

section \<open>Ingestion\<close>

lemma digits_nonneg:
  "0 \<le> n \<Longrightarrow> \<forall>c\<in>set ds. is_digit c \<Longrightarrow>
   0 \<le> foldl (\<lambda>n c. 10 * n + (int (of_char c) - 48)) n ds"
proof (induction ds arbitrary: n)
  case Nil
  then show ?case by simp
next
  case (Cons c ds)
  have "48 \<le> (of_char c :: nat)"
    using Cons.prems(2) by (simp add: is_digit_def Let_def)
  then have "0 \<le> 10 * n + (int (of_char c) - 48)"
    using Cons.prems(1) by simp
  then show ?case
    using Cons by simp
qed

lemma int_of_digits_nonneg: "0 \<le> int_of_digits (takeWhile is_digit t)"
proof -
  have "\<forall>c\<in>set (takeWhile is_digit t). is_digit c"
    by (auto dest: set_takeWhileD)
  then show ?thesis
    unfolding int_of_digits_def by (intro digits_nonneg) simp_all
qed

text \<open>
  Claim C5, as the code has it. For every input string, \<open>parse_stretch\<close> returns a pair
  \<open>(start, end)\<close> only when \<open>0 \<le> start \<le> end\<close>: both are non-negative integers, and a
  stretch of length zero, with \<open>start = end\<close>, is accepted.
\<close>

theorem parse_stretch_ordered:
  "parse_stretch s = Some (a, b) \<Longrightarrow> 0 \<le> a \<and> a \<le> b"
proof -
  assume ok: "parse_stretch s = Some (a, b)"
  define t where "t = strip s"
  obtain u where a: "a = int_of_digits (takeWhile is_digit t)"
    and b: "b = int_of_digits (takeWhile is_digit u)" and le: "a \<le> b"
    using ok unfolding parse_stretch_def Let_def t_def
    by (auto split: if_splits list.splits)
  show ?thesis
    using a le int_of_digits_nonneg by simp
qed

theorem parse_stretch_ordered_witness:
  "parse_stretch '' 100 - 150 '' = Some (100, 150) \<and> (0::int) \<le> 100 \<and> (100::int) \<le> 150"
proof -
  have ev: "parse_stretch '' 100 - 150 '' = Some (100, 150)"
    by (simp add: parse_stretch_def strip_def is_space_def is_digit_def int_of_digits_def)
  show ?thesis
    using parse_stretch_ordered [OF ev] ev by simp
qed

text \<open>
  Claim C5, as it is stated, fails: the text \<open>5-5\<close> is parsed to the pair \<open>(5, 5)\<close>, whose
  start is not below its end.
\<close>

theorem parse_stretch_zero_length:
  "parse_stretch ''5-5'' = Some (5, 5) \<and> \<not> ((5::int) < 5)"
  by (simp add: parse_stretch_def strip_def is_space_def is_digit_def int_of_digits_def)

section \<open>Filtering\<close>

lemma filter_loop:
  "foldl (filter_step fb fm) out rs =
     out @ filter (\<lambda>r. \<not> excluded fb (r_bill r) \<and> \<not> excluded fm (r_month r)) rs"
  by (induction rs arbitrary: out) (simp_all add: filter_step_def)

lemma excluded_iff: "excluded flt tag = (\<not> passes flt tag)"
  by (auto simp: excluded_def passes_def split: option.splits)

lemma filter_records_eq:
  "filter_records records fb fm =
     filter (\<lambda>r. passes fb (r_bill r) \<and> passes fm (r_month r)) records"
  by (simp add: filter_records_def filter_loop excluded_iff)

lemma passes_tagged: "tag \<noteq> Some [] \<Longrightarrow> passes flt tag = spec_passes flt tag"
  by (cases tag) (auto simp: passes_def spec_passes_def)

text \<open>
  Claim C7. The records that \<open>filter_records\<close> receives are those that \<open>parse_csv\<close> builds,
  which sets the key \<open>bill\<close> only to a non-empty text (\<open>if bill:\<close>) and the key \<open>month\<close> only
  to a text of the form \<open>YYYY-MM\<close>: no tag is the empty string. On every such record list
  \<open>filter_records\<close> keeps exactly the records that pass both axes, in their order, where a
  record passes an axis if its tag (bill or month) is absent, or the filter list of that axis
  is empty, or the tag is a member of that filter list. In particular, filtering by bill
  \<open>B1\<close> removes every record whose bill is set to something other than \<open>B1\<close> and keeps every
  record that has no bill tag at all.
\<close>

theorem filter_records_contract:
  assumes "\<forall>r\<in>set records. r_bill r \<noteq> Some [] \<and> r_month r \<noteq> Some []"
  shows "filter_records records fb fm =
           filter (\<lambda>r. spec_passes fb (r_bill r) \<and> spec_passes fm (r_month r)) records \<and>
         (\<forall>r\<in>set records.
            (\<exists>b. r_bill r = Some b \<and> b \<noteq> ''B1'') \<longrightarrow>
            r \<notin> set (filter_records records [''B1''] [])) \<and>
         (\<forall>r\<in>set records. r_bill r = None \<longrightarrow> r \<in> set (filter_records records [''B1''] []))"
proof -
  have same: "filter (\<lambda>r. passes flt1 (r_bill r) \<and> passes flt2 (r_month r)) records =
      filter (\<lambda>r. spec_passes flt1 (r_bill r) \<and> spec_passes flt2 (r_month r)) records"
    for flt1 flt2
  proof (rule filter_cong [OF refl])
    fix r assume "r \<in> set records"
    then have "r_bill r \<noteq> Some []" and "r_month r \<noteq> Some []"
      using assms by simp_all
    then show "(passes flt1 (r_bill r) \<and> passes flt2 (r_month r)) =
        (spec_passes flt1 (r_bill r) \<and> spec_passes flt2 (r_month r))"
      by (simp add: passes_tagged)
  qed
  have contract: "filter_records records flt1 flt2 =
      filter (\<lambda>r. spec_passes flt1 (r_bill r) \<and> spec_passes flt2 (r_month r)) records"
    for flt1 flt2
    unfolding filter_records_eq by (rule same)
  have drop: "\<forall>r\<in>set records.
            (\<exists>b. r_bill r = Some b \<and> b \<noteq> ''B1'') \<longrightarrow>
            r \<notin> set (filter_records records [''B1''] [])"
    unfolding contract by (auto simp: spec_passes_def)
  have keep: "\<forall>r\<in>set records. r_bill r = None \<longrightarrow> r \<in> set (filter_records records [''B1''] [])"
    unfolding contract by (auto simp: spec_passes_def split: option.splits)
  show ?thesis
    using contract drop keep by blast
qed

theorem filter_records_contract_witness:
  "r_bill \<lparr>r_layer = ''L'', r_start = 0, r_end = 100, r_bill = Some ''B1'', r_month = None\<rparr>
     \<noteq> Some [] \<and>
   r_bill \<lparr>r_layer = ''L'', r_start = 100, r_end = 200, r_bill = Some ''B2'', r_month = None\<rparr>
     \<noteq> Some [] \<and>
   r_bill \<lparr>r_layer = ''L'', r_start = 200, r_end = 300, r_bill = None, r_month = None\<rparr>
     \<noteq> Some [] \<and>
   filter_records
     [\<lparr>r_layer = ''L'', r_start = 0, r_end = 100, r_bill = Some ''B1'', r_month = None\<rparr>,
      \<lparr>r_layer = ''L'', r_start = 100, r_end = 200, r_bill = Some ''B2'', r_month = None\<rparr>,
      \<lparr>r_layer = ''L'', r_start = 200, r_end = 300, r_bill = None, r_month = None\<rparr>]
     [''B1''] [] =
     [\<lparr>r_layer = ''L'', r_start = 0, r_end = 100, r_bill = Some ''B1'', r_month = None\<rparr>,
      \<lparr>r_layer = ''L'', r_start = 200, r_end = 300, r_bill = None, r_month = None\<rparr>]"
proof -
  let ?recs =
    "[\<lparr>r_layer = ''L'', r_start = 0, r_end = 100, r_bill = Some ''B1'', r_month = None\<rparr>,
      \<lparr>r_layer = ''L'', r_start = 100, r_end = 200, r_bill = Some ''B2'', r_month = None\<rparr>,
      \<lparr>r_layer = ''L'', r_start = 200, r_end = 300, r_bill = None, r_month = None\<rparr>]"
  have tagged: "\<forall>r\<in>set ?recs. r_bill r \<noteq> Some [] \<and> r_month r \<noteq> Some []"
    by simp
  have "filter_records ?recs [''B1''] [] =
      filter (\<lambda>r. spec_passes [''B1''] (r_bill r) \<and> spec_passes [] (r_month r)) ?recs"
    using filter_records_contract [OF tagged, of "[''B1'']" "[]"] by blast
  then show ?thesis
    by (simp add: spec_passes_def)
qed

section \<open>The gap detector returns: totality\<close>

lemma find_gaps_per_layer_Cons:
  "find_gaps_per_layer (r # rs) =
     Inr (map (\<lambda>(layer, intervals).
                 (layer, layer_gaps (fold min (map r_start rs) (r_start r))
                           (fold max (map r_end rs) (r_end r)) intervals))
            (group_by_layer (r # rs)))"
  by (simp add: find_gaps_per_layer_def result_loop_empty distinct_group_by_layer)

text \<open>
  Claim C9. \<open>find_gaps_per_layer\<close> is total only on non-empty inputs: for every non-empty
  record list it returns a gaps mapping, whose keys are the layers of the records, without
  raising; for the empty record list the minimum and the maximum are taken of an empty
  sequence and the error branch is reached, a \<open>ValueError\<close>.
\<close>

theorem find_gaps_per_layer_total_on_nonempty:
  "(records \<noteq> [] \<longrightarrow>
      (\<exists>res. find_gaps_per_layer records = Inr res \<and> fst ` set res = r_layer ` set records)) \<and>
   find_gaps_per_layer [] = Inl ValueError"
proof -
  have emp: "find_gaps_per_layer [] = Inl ValueError"
    by (simp add: find_gaps_per_layer_def)
  have ne: "records \<noteq> [] \<longrightarrow>
      (\<exists>res. find_gaps_per_layer records = Inr res \<and> fst ` set res = r_layer ` set records)"
  proof
    assume "records \<noteq> []"
    then obtain r rs where rec: "records = r # rs"
      by (cases records) auto
    have "fst ` set (map (\<lambda>(layer, intervals).
                 (layer, layer_gaps (fold min (map r_start rs) (r_start r))
                           (fold max (map r_end rs) (r_end r)) intervals))
            (group_by_layer (r # rs))) = fst ` set (group_by_layer (r # rs))"
      by (force simp: image_iff)
    then show "\<exists>res. find_gaps_per_layer records = Inr res \<and>
        fst ` set res = r_layer ` set records"
      unfolding rec find_gaps_per_layer_Cons
      by (simp only: keys_group_by_layer sum.inject simp_thms ex_simps)
  qed
  show ?thesis
    using ne emp by blast
qed

theorem find_gaps_per_layer_total_on_nonempty_witness:
  "[\<lparr>r_layer = ''L'', r_start = 100, r_end = 150, r_bill = None, r_month = None\<rparr>] \<noteq> [] \<and>
   (\<exists>res. find_gaps_per_layer
       [\<lparr>r_layer = ''L'', r_start = 100, r_end = 150, r_bill = None, r_month = None\<rparr>] = Inr res)"
  using find_gaps_per_layer_total_on_nonempty
    [of "[\<lparr>r_layer = ''L'', r_start = 100, r_end = 150, r_bill = None, r_month = None\<rparr>]"]
  by blast

section \<open>Gaps and coverage tile the route range\<close>

text \<open>
  The loop over the merged intervals emits a gap before each interval that starts after the
  running position, and a last one up to \<open>max_end\<close>: it computes \<open>gap_walk\<close>.
\<close>

lemma gap_loop:
  "(case foldl gap_step (pos, gs) ms of
      (p, gaps) \<Rightarrow>
        if p < hi then gaps @ [\<lparr>s_start = p, s_end = hi, s_len = hi - p\<rparr>] else gaps) =
   gs @ gap_walk pos hi ms"
  by (induction ms arbitrary: pos gs) (simp_all add: gap_step_def)

lemma layer_gaps_eq: "layer_gaps lo hi ivs = gap_walk lo hi (merge_intervals ivs)"
  using gap_loop [of hi lo "[]" "merge_intervals ivs"] by (simp add: layer_gaps_def Let_def)

lemma apart_sorted_wrt:
  "successively apart ms \<Longrightarrow> sorted (map i_start ms) \<Longrightarrow>
   \<forall>m\<in>set ms. i_start m < i_end m \<Longrightarrow> sorted_wrt apart ms"
proof (induction ms)
  case Nil
  then show ?case by simp
next
  case (Cons m ms)
  have tl: "sorted_wrt apart ms"
    using Cons by (cases ms) auto
  have "\<forall>x\<in>set ms. apart m x"
  proof (cases ms)
    case Nil
    then show ?thesis by simp
  next
    case (Cons y ys)
    have "i_end m < i_start y"
      using Cons.prems(1) Cons by (simp add: apart_def)
    moreover have "\<forall>x\<in>set ms. i_start y \<le> i_start x"
      using Cons.prems(2) Cons by auto
    ultimately show ?thesis
      by (auto simp: apart_def)
  qed
  then show ?case using tl by simp
qed

lemma merge_step_in_range:
  assumes "merged \<noteq> []" and "\<forall>m\<in>set merged. in_range lo hi m" and "in_range lo hi cur"
  shows "\<forall>m\<in>set (merge_step merged cur). in_range lo hi m"
proof -
  obtain ms l where m: "merged = ms @ [l]"
    using assms(1) by (metis append_butlast_last_id)
  show ?thesis
    using assms(2,3) unfolding m
    by (auto simp: merge_step_def Let_def in_range_def)
qed

lemma merge_loop_in_range:
  assumes "merged \<noteq> []" and "\<forall>m\<in>set merged. in_range lo hi m" and "\<forall>x\<in>set xs. in_range lo hi x"
  shows "\<forall>m\<in>set (foldl merge_step merged xs). in_range lo hi m"
  using assms
proof (induction xs arbitrary: merged)
  case Nil
  then show ?case by simp
next
  case (Cons x xs)
  have "\<forall>m\<in>set (foldl merge_step (merge_step merged x) xs). in_range lo hi m"
  proof (rule Cons.IH)
    show "merge_step merged x \<noteq> []" by (rule merge_step_nonempty)
    show "\<forall>m\<in>set (merge_step merged x). in_range lo hi m"
      using Cons.prems by (intro merge_step_in_range) simp_all
    show "\<forall>x\<in>set xs. in_range lo hi x" using Cons.prems(3) by simp
  qed
  then show ?case by simp
qed

lemma merge_intervals_in_range:
  assumes "\<forall>x\<in>set xs. in_range lo hi x"
  shows "\<forall>m\<in>set (merge_intervals xs). in_range lo hi m"
proof (cases "xs = []")
  case True
  then show ?thesis by (simp add: merge_intervals_def)
next
  case False
  define ys where "ys = sort_key i_start xs"
  have ne: "ys \<noteq> []"
    using False unfolding ys_def by (metis set_sort set_empty)
  have all: "\<forall>x\<in>set ys. in_range lo hi x"
    using assms unfolding ys_def by simp
  have "\<forall>m\<in>set (foldl merge_step [hd ys] (tl ys)). in_range lo hi m"
  proof (rule merge_loop_in_range)
    show "[hd ys] \<noteq> []" by simp
    show "\<forall>m\<in>set [hd ys]. in_range lo hi m" using all ne by simp
    show "\<forall>x\<in>set (tl ys). in_range lo hi x" using all ne by (auto dest: list.set_sel(2))
  qed
  then show ?thesis
    using False by (simp add: merge_intervals_def Let_def ys_def)
qed

lemma gap_walk_tiles:
  assumes "sorted_wrt apart ms" and "\<forall>m\<in>set ms. in_range pos hi m"
  shows "(\<Union>m\<in>set ms. covered m) \<union> (\<Union>g\<in>set (gap_walk pos hi ms). gap_range g) = {pos ..< hi} \<and>
         (\<forall>g\<in>set (gap_walk pos hi ms).
            pos \<le> s_start g \<and> s_start g < s_end g \<and> s_end g \<le> hi \<and>
            s_len g = s_end g - s_start g) \<and>
         (\<forall>m\<in>set ms. \<forall>g\<in>set (gap_walk pos hi ms). disjnt (covered m) (gap_range g)) \<and>
         sorted_wrt (\<lambda>g h. s_end g \<le> s_start h) (gap_walk pos hi ms)"
  using assms
proof (induction ms arbitrary: pos)
  case Nil
  then show ?case by (auto simp: gap_range_def)
next
  case (Cons m ms)
  have m: "pos \<le> i_start m" "i_start m < i_end m" "i_end m \<le> hi"
    using Cons.prems(2) by (simp_all add: in_range_def)
  have nxt: "max pos (i_end m) = i_end m"
    using m by simp
  have after: "\<forall>x\<in>set ms. i_end m < i_start x"
    using Cons.prems(1) by (simp add: apart_def)
  have rest: "\<forall>x\<in>set ms. in_range (i_end m) hi x"
    using Cons.prems(2) after by (auto simp: in_range_def)
  have srt: "sorted_wrt apart ms"
    using Cons.prems(1) by simp
  note ih = Cons.IH [OF srt rest]
  let ?g = "\<lparr>s_start = pos, s_end = i_start m, s_len = i_start m - pos\<rparr>"
  let ?first = "if pos < i_start m then [?g] else []"
  let ?G = "gap_walk (i_end m) hi ms"
  have walk: "gap_walk pos hi (m # ms) = ?first @ ?G"
    by (simp add: nxt)
  have first: "(\<Union>g\<in>set ?first. gap_range g) = {pos ..< i_start m}"
    using m by (auto simp: gap_range_def)
  have u: "(\<Union>x\<in>set ms. covered x) \<union> (\<Union>g\<in>set ?G. gap_range g) = {i_end m ..< hi}"
    using ih by blast
  have "(\<Union>x\<in>set (m # ms). covered x) \<union> (\<Union>g\<in>set (?first @ ?G). gap_range g) =
        covered m \<union> {pos ..< i_start m} \<union>
          ((\<Union>x\<in>set ms. covered x) \<union> (\<Union>g\<in>set ?G. gap_range g))"
    unfolding set_append UN_Un first by auto
  also have "\<dots> = {pos ..< hi}"
    unfolding u using m by (auto simp: covered_def)
  finally have c1: "(\<Union>x\<in>set (m # ms). covered x) \<union>
      (\<Union>g\<in>set (gap_walk pos hi (m # ms)). gap_range g) = {pos ..< hi}"
    unfolding walk .
  have c2: "\<forall>g\<in>set (gap_walk pos hi (m # ms)).
            pos \<le> s_start g \<and> s_start g < s_end g \<and> s_end g \<le> hi \<and>
            s_len g = s_end g - s_start g"
    unfolding walk using ih m by auto
  have gm: "\<forall>g\<in>set ?G. disjnt (covered m) (gap_range g)"
    using ih by (auto simp: disjnt_def covered_def gap_range_def)
  have fm: "\<forall>x\<in>set (m # ms). \<forall>g\<in>set ?first. disjnt (covered x) (gap_range g)"
    using after m by (auto simp: disjnt_def covered_def gap_range_def)
  have c3: "\<forall>x\<in>set (m # ms). \<forall>g\<in>set (gap_walk pos hi (m # ms)).
      disjnt (covered x) (gap_range g)"
    unfolding walk using ih gm fm by auto
  have c4: "sorted_wrt (\<lambda>g h. s_end g \<le> s_start h) (gap_walk pos hi (m # ms))"
    unfolding walk using ih m by (auto simp: sorted_wrt_append)
  show ?case
    using c1 c2 c3 c4 by blast
qed


lemma apart_disjnt: "apart a b \<Longrightarrow> disjnt (covered a) (covered b)"
  by (auto simp: apart_def covered_def disjnt_def)

lemma gaps_disjnt: "s_end g \<le> s_start h \<Longrightarrow> disjnt (gap_range g) (gap_range h)"
  by (auto simp: gap_range_def disjnt_def)

lemma route_bounds:
  assumes "r \<in> set records"
  shows "Min (r_start ` set records) \<le> r_start r" and "r_end r \<le> Max (r_end ` set records)"
  using assms by simp_all

text \<open>
  Claim C2. For every non-empty record list in which every record has \<open>start < end\<close>, and
  for every layer present in it: \<open>find_gaps_per_layer\<close> returns a mapping with an entry for
  the layer, and the merged coverage of the layer together with the gaps of that entry tile
  the half-open range from the minimum start to the maximum end over all the records, of every
  layer. The tiles cover the range exactly (no hole), they are pairwise disjoint (no overlap),
  none of them is empty, and the \<open>len\<close> of each gap is its \<open>end\<close> minus its \<open>start\<close>.
\<close>

theorem gaps_tile_route_range:
  assumes "records \<noteq> []" and "\<forall>r\<in>set records. r_start r < r_end r"
    and "l \<in> r_layer ` set records"
  shows "\<exists>res gaps.
           find_gaps_per_layer records = Inr res \<and> map_of res l = Some gaps \<and>
           \<Union> (set (tiles (merge_intervals (layer_intervals records l)) gaps)) =
             {Min (r_start ` set records) ..< Max (r_end ` set records)} \<and>
           sorted_wrt disjnt (tiles (merge_intervals (layer_intervals records l)) gaps) \<and>
           (\<forall>t\<in>set (tiles (merge_intervals (layer_intervals records l)) gaps). t \<noteq> {}) \<and>
           (\<forall>g\<in>set gaps. s_len g = s_end g - s_start g)"
proof -
  obtain r rs where rec: "records = r # rs"
    using assms(1) by (cases records) auto
  define lo where "lo = Min (r_start ` set records)"
  define hi where "hi = Max (r_end ` set records)"
  define ivs where "ivs = layer_intervals records l"
  define C where "C = merge_intervals ivs"
  define gaps where "gaps = gap_walk lo hi C"
  have lo: "fold min (map r_start rs) (r_start r) = lo"
    unfolding lo_def rec using Min.set_eq_fold [of "r_start r" "map r_start rs"] by simp
  have hi: "fold max (map r_end rs) (r_end r) = hi"
    unfolding hi_def rec using Max.set_eq_fold [of "r_end r" "map r_end rs"] by simp
  have run: "find_gaps_per_layer records =
      Inr (map (\<lambda>(layer, intervals). (layer, layer_gaps lo hi intervals)) (group_by_layer records))"
    using find_gaps_per_layer_Cons [of r rs] unfolding lo hi rec .
  have entry: "map_of (map (\<lambda>(layer, intervals). (layer, layer_gaps lo hi intervals))
                 (group_by_layer records)) l = Some gaps"
    using assms(3)
    by (simp add: map_of_mapped_values map_of_group_by_layer layer_gaps_eq gaps_def C_def ivs_def
          layer_intervals_def)
  have raw: "\<forall>x\<in>set ivs. in_range lo hi x"
  proof
    fix x assume "x \<in> set ivs"
    then obtain q where q: "q \<in> set records" and x: "x = interval_of q"
      unfolding ivs_def layer_intervals_def by auto
    show "in_range lo hi x"
      using route_bounds [OF q] assms(2) q
      by (simp add: in_range_def x interval_of_def lo_def hi_def)
  qed
  have inr: "\<forall>m\<in>set C. in_range lo hi m"
    unfolding C_def using raw by (rule merge_intervals_in_range)
  have pos: "\<forall>m\<in>set C. i_start m < i_end m"
    using inr by (simp add: in_range_def)
  have chain: "sorted_wrt apart C"
    unfolding C_def
    using merge_intervals_apart_sorted [of ivs] pos [unfolded C_def]
    by (intro apart_sorted_wrt) simp_all
  note walk = gap_walk_tiles [OF chain inr, folded gaps_def]
  have union: "\<Union> (set (tiles C gaps)) = {lo ..< hi}"
    using walk [THEN conjunct1] by (simp add: tiles_def)
  have g: "\<forall>g\<in>set gaps. lo \<le> s_start g \<and> s_start g < s_end g \<and> s_end g \<le> hi \<and>
            s_len g = s_end g - s_start g"
    using walk by blast
  have cross: "\<forall>m\<in>set C. \<forall>g\<in>set gaps. disjnt (covered m) (gap_range g)"
    using walk by blast
  have gchain: "sorted_wrt (\<lambda>g h. s_end g \<le> s_start h) gaps"
    using walk by blast
  have d1: "sorted_wrt disjnt (map covered C)"
    unfolding sorted_wrt_map using chain apart_disjnt by (rule sorted_wrt_mono_rel [rotated])
  have d2: "sorted_wrt disjnt (map gap_range gaps)"
    unfolding sorted_wrt_map using gchain gaps_disjnt by (rule sorted_wrt_mono_rel [rotated])
  have disj: "sorted_wrt disjnt (tiles C gaps)"
    unfolding tiles_def sorted_wrt_append using d1 d2 cross by auto
  have nonempty: "\<forall>t\<in>set (tiles C gaps). t \<noteq> {}"
    using pos g by (auto simp: tiles_def covered_def gap_range_def)
  have len: "\<forall>g\<in>set gaps. s_len g = s_end g - s_start g"
    using g by blast
  show ?thesis
    using run entry union disj nonempty len
    unfolding C_def ivs_def lo_def hi_def by blast
qed

theorem gaps_tile_route_range_witness:
  "[\<lparr>r_layer = ''L'', r_start = 10, r_end = 100, r_bill = None, r_month = None\<rparr>,
    \<lparr>r_layer = ''M'', r_start = 0, r_end = 300, r_bill = None, r_month = None\<rparr>,
    \<lparr>r_layer = ''L'', r_start = 50, r_end = 150, r_bill = None, r_month = None\<rparr>,
    \<lparr>r_layer = ''L'', r_start = 200, r_end = 250, r_bill = None, r_month = None\<rparr>] \<noteq> [] \<and>
   find_gaps_per_layer
     [\<lparr>r_layer = ''L'', r_start = 10, r_end = 100, r_bill = None, r_month = None\<rparr>,
      \<lparr>r_layer = ''M'', r_start = 0, r_end = 300, r_bill = None, r_month = None\<rparr>,
      \<lparr>r_layer = ''L'', r_start = 50, r_end = 150, r_bill = None, r_month = None\<rparr>,
      \<lparr>r_layer = ''L'', r_start = 200, r_end = 250, r_bill = None, r_month = None\<rparr>] =
     Inr [(''L'', [\<lparr>s_start = 0, s_end = 10, s_len = 10\<rparr>,
                  \<lparr>s_start = 150, s_end = 200, s_len = 50\<rparr>,
                  \<lparr>s_start = 250, s_end = 300, s_len = 50\<rparr>]),
          (''M'', [])] \<and>
   \<Union> (set (tiles [\<lparr>i_start = 10, i_end = 150\<rparr>, \<lparr>i_start = 200, i_end = 250\<rparr>]
             [\<lparr>s_start = 0, s_end = 10, s_len = 10\<rparr>,
              \<lparr>s_start = 150, s_end = 200, s_len = 50\<rparr>,
              \<lparr>s_start = 250, s_end = 300, s_len = 50\<rparr>])) = {0 ..< 300}"
proof -
  let ?recs =
    "[\<lparr>r_layer = ''L'', r_start = 10, r_end = 100, r_bill = None, r_month = None\<rparr>,
      \<lparr>r_layer = ''M'', r_start = 0, r_end = 300, r_bill = None, r_month = None\<rparr>,
      \<lparr>r_layer = ''L'', r_start = 50, r_end = 150, r_bill = None, r_month = None\<rparr>,
      \<lparr>r_layer = ''L'', r_start = 200, r_end = 250, r_bill = None, r_month = None\<rparr>]"
  let ?gaps = "[\<lparr>s_start = 0, s_end = 10, s_len = 10\<rparr>,
                \<lparr>s_start = 150, s_end = 200, s_len = 50\<rparr>,
                \<lparr>s_start = 250, s_end = 300, s_len = 50\<rparr>]"
  have ev: "find_gaps_per_layer ?recs = Inr [(''L'', ?gaps), (''M'', [])]"
    by (simp add: find_gaps_per_layer_def group_by_layer_def setdefault_append_def
          interval_of_def layer_gaps_def gap_step_def merge_intervals_def merge_step_def)
  have mg: "merge_intervals (layer_intervals ?recs ''L'') =
      [\<lparr>i_start = 10, i_end = 150\<rparr>, \<lparr>i_start = 200, i_end = 250\<rparr>]"
    by (simp add: layer_intervals_def interval_of_def merge_intervals_def merge_step_def)
  have h1: "?recs \<noteq> []" by simp
  have h2: "\<forall>r\<in>set ?recs. r_start r < r_end r" by simp
  have h3: "''L'' \<in> r_layer ` set ?recs" by simp
  obtain res gaps where res: "find_gaps_per_layer ?recs = Inr res"
    and gaps: "map_of res ''L'' = Some gaps"
    and u: "\<Union> (set (tiles (merge_intervals (layer_intervals ?recs ''L'')) gaps)) =
             {Min (r_start ` set ?recs) ..< Max (r_end ` set ?recs)}"
    using gaps_tile_route_range [OF h1 h2 h3] by blast
  have "res = [(''L'', ?gaps), (''M'', [])]"
    using res ev by simp
  then have "gaps = ?gaps"
    using gaps by simp
  then have "\<Union> (set (tiles [\<lparr>i_start = 10, i_end = 150\<rparr>, \<lparr>i_start = 200, i_end = 250\<rparr>] ?gaps)) =
      {0 ..< 300}"
    using u unfolding mg by simp
  then show ?thesis
    using ev by simp
qed

section \<open>The overlap detector\<close>

lemma inner_overlap_loop:
  "j \<le> length xs \<Longrightarrow>
   foldl (overlap_body xs i) acc [j ..< length xs] =
     acc @ filter (\<lambda>m. i_start m < i_end m) (map (intersection (xs ! i)) (drop j xs))"
proof (induction "length xs - j" arbitrary: j acc)
  case 0
  then show ?case by simp
next
  case (Suc n)
  have lt: "j < length xs"
    using Suc.hyps(2) by simp
  have upt: "[j ..< length xs] = j # [Suc j ..< length xs]"
    using lt by (simp add: upt_conv_Cons)
  have drp: "drop j xs = xs ! j # drop (Suc j) xs"
    using lt by (simp add: Cons_nth_drop_Suc)
  have ih: "foldl (overlap_body xs i) (overlap_body xs i acc j) [Suc j ..< length xs] =
      overlap_body xs i acc j @
        filter (\<lambda>m. i_start m < i_end m) (map (intersection (xs ! i)) (drop (Suc j) xs))"
    using Suc.hyps(2) lt by (intro Suc.hyps(1)) simp_all
  show ?case
    unfolding upt drp
    by (simp add: ih) (simp add: overlap_body_def intersection_def Let_def)
qed

lemma outer_overlap_loop:
  "i \<le> length xs \<Longrightarrow>
   foldl (\<lambda>overlaps i. foldl (overlap_body xs i) overlaps [i + 1 ..< length xs])
     acc [i ..< length xs] =
     acc @ spec_intersections (drop i xs)"
proof (induction "length xs - i" arbitrary: i acc)
  case 0
  then show ?case by (simp add: spec_intersections_def)
next
  case (Suc n)
  have lt: "i < length xs"
    using Suc.hyps(2) by simp
  have upt: "[i ..< length xs] = i # [Suc i ..< length xs]"
    using lt by (simp add: upt_conv_Cons)
  have drp: "drop i xs = xs ! i # drop (Suc i) xs"
    using lt by (simp add: Cons_nth_drop_Suc)
  have inner: "foldl (overlap_body xs i) acc [Suc i ..< length xs] =
      acc @ filter (\<lambda>m. i_start m < i_end m) (map (intersection (xs ! i)) (drop (Suc i) xs))"
    using lt inner_overlap_loop [of "Suc i" xs i acc] by simp
  have ih: "\<And>acc'. foldl (\<lambda>overlaps i. foldl (overlap_body xs i) overlaps [Suc i ..< length xs])
      acc' [Suc i ..< length xs] = acc' @ spec_intersections (drop (Suc i) xs)"
    using Suc.hyps(2) lt Suc.hyps(1) [of "Suc i"] by simp
  have split: "spec_intersections (xs ! i # drop (Suc i) xs) =
      filter (\<lambda>m. i_start m < i_end m) (map (intersection (xs ! i)) (drop (Suc i) xs)) @
      spec_intersections (drop (Suc i) xs)"
    by (simp add: spec_intersections_def comp_def)
  show ?case
    unfolding upt drp split
    by (simp add: inner ih)
qed

lemma pairwise_overlaps_eq: "pairwise_overlaps xs = spec_intersections xs"
  using outer_overlap_loop [of 0 xs "[]"] by (simp add: pairwise_overlaps_def)

lemma find_overlaps_within_layer_eq:
  "find_overlaps_within_layer records =
     map (\<lambda>(layer, intervals). (layer, spec_overlaps intervals)) (group_by_layer records)"
proof -
  have "find_overlaps_within_layer records =
      map (\<lambda>(layer, intervals).
             (layer, map with_len (merge_intervals (pairwise_overlaps intervals))))
        (group_by_layer records)"
    unfolding find_overlaps_within_layer_def
    by (rule result_loop_empty) (rule distinct_group_by_layer)
  then show ?thesis
    by (simp add: pairwise_overlaps_eq spec_overlaps_def)
qed

lemma map_of_find_overlaps:
  "map_of (find_overlaps_within_layer records) l =
     (if l \<in> r_layer ` set records then Some (spec_overlaps (layer_intervals records l))
      else None)"
  by (simp add: find_overlaps_within_layer_eq map_of_mapped_values map_of_group_by_layer
        layer_intervals_def)

text \<open>
  Claim C3. \<open>find_overlaps_within_layer\<close> maps each layer of the records to the merge of all
  strictly non-empty pairwise intersections \<open>[max(a.start, b.start), min(a.end, b.end))\<close> of
  that layer's raw intervals, zero-length intersections excluded, and has no entry for any
  other layer; each entry carries \<open>len = end - start\<close>. For the two records \<open>("L", 0, 100)\<close>
  and \<open>("L", 50, 150)\<close> it returns for layer \<open>L\<close> exactly one overlap \<open>[50, 100)\<close> with \<open>len\<close>
  50, while the merged coverage length of those two records is 150.
\<close>

theorem find_overlaps_within_layer_spec:
  "map_of (find_overlaps_within_layer records) l =
     (if l \<in> r_layer ` set records then Some (spec_overlaps (layer_intervals records l))
      else None) \<and>
   (\<forall>s\<in>set (spec_overlaps (layer_intervals records l)). s_len s = s_end s - s_start s) \<and>
   find_overlaps_within_layer
     [\<lparr>r_layer = ''L'', r_start = 0, r_end = 100, r_bill = None, r_month = None\<rparr>,
      \<lparr>r_layer = ''L'', r_start = 50, r_end = 150, r_bill = None, r_month = None\<rparr>] =
     [(''L'', [\<lparr>s_start = 50, s_end = 100, s_len = 50\<rparr>])] \<and>
   total_len (merge_intervals (map interval_of
     [\<lparr>r_layer = ''L'', r_start = 0, r_end = 100, r_bill = None, r_month = None\<rparr>,
      \<lparr>r_layer = ''L'', r_start = 50, r_end = 150, r_bill = None, r_month = None\<rparr>])) = 150"
proof -
  have lens: "\<forall>s\<in>set (spec_overlaps (layer_intervals records l)). s_len s = s_end s - s_start s"
    by (auto simp: spec_overlaps_def with_len_def)
  have ex: "find_overlaps_within_layer
     [\<lparr>r_layer = ''L'', r_start = 0, r_end = 100, r_bill = None, r_month = None\<rparr>,
      \<lparr>r_layer = ''L'', r_start = 50, r_end = 150, r_bill = None, r_month = None\<rparr>] =
     [(''L'', [\<lparr>s_start = 50, s_end = 100, s_len = 50\<rparr>])]"
    by (simp add: find_overlaps_within_layer_def group_by_layer_def setdefault_append_def
          interval_of_def pairwise_overlaps_def overlap_body_def merge_intervals_def
          with_len_def upt_rec)
  have cov: "total_len (merge_intervals (map interval_of
     [\<lparr>r_layer = ''L'', r_start = 0, r_end = 100, r_bill = None, r_month = None\<rparr>,
      \<lparr>r_layer = ''L'', r_start = 50, r_end = 150, r_bill = None, r_month = None\<rparr>])) = 150"
    by (simp add: interval_of_def merge_intervals_def merge_step_def total_len_def)
  show ?thesis
    using map_of_find_overlaps lens ex cov by blast
qed

theorem find_overlaps_within_layer_spec_witness:
  "map_of (find_overlaps_within_layer
     [\<lparr>r_layer = ''L'', r_start = 0, r_end = 100, r_bill = None, r_month = None\<rparr>,
      \<lparr>r_layer = ''L'', r_start = 50, r_end = 150, r_bill = None, r_month = None\<rparr>]) ''L'' =
     Some [\<lparr>s_start = 50, s_end = 100, s_len = 50\<rparr>] \<and>
   spec_overlaps (layer_intervals
     [\<lparr>r_layer = ''L'', r_start = 0, r_end = 100, r_bill = None, r_month = None\<rparr>,
      \<lparr>r_layer = ''L'', r_start = 50, r_end = 150, r_bill = None, r_month = None\<rparr>] ''L'') =
     [\<lparr>s_start = 50, s_end = 100, s_len = 50\<rparr>] \<and>
   \<lparr>s_start = 50, s_end = 100, s_len = 50\<rparr> \<in> set (spec_overlaps (layer_intervals
     [\<lparr>r_layer = ''L'', r_start = 0, r_end = 100, r_bill = None, r_month = None\<rparr>,
      \<lparr>r_layer = ''L'', r_start = 50, r_end = 150, r_bill = None, r_month = None\<rparr>] ''L'')) \<and>
   s_len \<lparr>s_start = 50, s_end = 100, s_len = 50\<rparr> =
     s_end \<lparr>s_start = 50, s_end = 100, s_len = 50\<rparr> -
     s_start \<lparr>s_start = 50, s_end = 100, s_len = 50\<rparr>"
proof -
  note t = find_overlaps_within_layer_spec
    [of "[\<lparr>r_layer = ''L'', r_start = 0, r_end = 100, r_bill = None, r_month = None\<rparr>,
          \<lparr>r_layer = ''L'', r_start = 50, r_end = 150, r_bill = None, r_month = None\<rparr>]" "''L''"]
  have ex: "find_overlaps_within_layer
     [\<lparr>r_layer = ''L'', r_start = 0, r_end = 100, r_bill = None, r_month = None\<rparr>,
      \<lparr>r_layer = ''L'', r_start = 50, r_end = 150, r_bill = None, r_month = None\<rparr>] =
     [(''L'', [\<lparr>s_start = 50, s_end = 100, s_len = 50\<rparr>])]"
    using t by blast
  have m: "map_of (find_overlaps_within_layer
     [\<lparr>r_layer = ''L'', r_start = 0, r_end = 100, r_bill = None, r_month = None\<rparr>,
      \<lparr>r_layer = ''L'', r_start = 50, r_end = 150, r_bill = None, r_month = None\<rparr>]) ''L'' =
     Some (spec_overlaps (layer_intervals
     [\<lparr>r_layer = ''L'', r_start = 0, r_end = 100, r_bill = None, r_month = None\<rparr>,
      \<lparr>r_layer = ''L'', r_start = 50, r_end = 150, r_bill = None, r_month = None\<rparr>] ''L''))"
    using t [THEN conjunct1] by simp
  have sp: "spec_overlaps (layer_intervals
     [\<lparr>r_layer = ''L'', r_start = 0, r_end = 100, r_bill = None, r_month = None\<rparr>,
      \<lparr>r_layer = ''L'', r_start = 50, r_end = 150, r_bill = None, r_month = None\<rparr>] ''L'') =
     [\<lparr>s_start = 50, s_end = 100, s_len = 50\<rparr>]"
    using m unfolding ex by simp
  show ?thesis
    unfolding sp ex by simp
qed

section \<open>The progress aggregator\<close>

lemma pct_of_eq:
  "pct_of lng extent =
     (if overflows lng extent then Inl OverflowError else Inr (pct_val lng extent))"
  by (simp add: pct_of_def pct_val_def true_div_def overflows_def)

lemma float_limit_large: "1 < FLOAT_LIMIT"
  by (simp add: FLOAT_LIMIT_def)

lemma overflows_zero_extent: "\<not> overflows lng 0"
  by (simp add: overflows_def)

lemma progress_loop_split:
  "foldl progress_step (a, b) rs =
     (foldl (\<lambda>d r. setdefault_append d (r_layer r) (interval_of r)) a rs, foldl bill_step b rs)"
proof (induction rs arbitrary: a b)
  case Nil
  then show ?case by simp
next
  case (Cons r rs)
  have step: "progress_step (a, b) r =
      (setdefault_append a (r_layer r) (interval_of r), bill_step b r)"
    by (simp add: progress_step_def bill_step_def billed_key_def raw_len_def Let_def
          split: option.splits)
  show ?case
    by (simp add: step Cons.IH)
qed

lemma per_layer_loop_eq:
  "per_layer_loop extent items acc =
     (if \<exists>kv\<in>set items. overflows (total_len (merge_intervals (snd kv))) extent
      then Inl OverflowError
      else Inr (foldl (\<lambda>result (layer, intervals).
                         AList.update layer (layer_entry extent intervals) result)
                  acc items))"
proof (induction items arbitrary: acc)
  case Nil
  then show ?case by simp
next
  case (Cons kv items)
  obtain k v where kv: "kv = (k, v)" by (cases kv)
  show ?case
    unfolding kv by (simp add: pct_of_eq Cons.IH layer_entry_def Let_def)
qed

lemma split_first_eq:
  "CHR ''|'' \<in> set key \<Longrightarrow>
   split_first key =
     Inr (takeWhile (\<lambda>c. c \<noteq> CHR ''|'') key, tl (dropWhile (\<lambda>c. c \<noteq> CHR ''|'') key))"
proof -
  assume "CHR ''|'' \<in> set key"
  then have "dropWhile (\<lambda>c. c \<noteq> CHR ''|'') key \<noteq> []"
    by (auto simp: dropWhile_eq_Nil_conv)
  then show ?thesis
    by (cases "dropWhile (\<lambda>c. c \<noteq> CHR ''|'') key") (simp_all add: split_first_def)
qed

lemma per_bill_loop_eq:
  "\<forall>kv\<in>set items. CHR ''|'' \<in> set (fst kv) \<Longrightarrow>
   per_bill_loop extent items acc =
     (if \<exists>kv\<in>set items. overflows (snd kv) extent then Inl OverflowError
      else Inr (acc @ map (bill_entry extent) items))"
proof (induction items arbitrary: acc)
  case Nil
  then show ?case by simp
next
  case (Cons kv items)
  obtain k v where kv: "kv = (k, v)" by (cases kv)
  have sep: "CHR ''|'' \<in> set k"
    using Cons.prems unfolding kv by simp
  have rest: "\<forall>kv\<in>set items. CHR ''|'' \<in> set (fst kv)"
    using Cons.prems by simp
  show ?case
    unfolding kv
    by (simp add: split_first_eq [OF sep] pct_of_eq Cons.IH [OF rest] bill_entry_def)
qed

lemma billed_key_sep: "billed_key r = Some k \<Longrightarrow> CHR ''|'' \<in> set k"
  by (auto simp: billed_key_def split: option.splits if_splits)

lemma bill_step_keys:
  "fst ` set (bill_step d r) =
     fst ` set d \<union> (case billed_key r of None \<Rightarrow> {} | Some k \<Rightarrow> {k})"
  by (simp add: bill_step_def dom_update split: option.splits)

lemma bill_loop_keys:
  "fst ` set (foldl bill_step d rs) = fst ` set d \<union> {k. \<exists>r\<in>set rs. billed_key r = Some k}"
proof (induction rs arbitrary: d)
  case Nil
  then show ?case by simp
next
  case (Cons r rs)
  show ?case
    by (auto simp: Cons.IH bill_step_keys split: option.splits)
qed

lemma bill_loop_distinct:
  "distinct (map fst d) \<Longrightarrow> distinct (map fst (foldl bill_step d rs))"
proof (induction rs arbitrary: d)
  case Nil
  then show ?case by simp
next
  case (Cons r rs)
  have "distinct (map fst (bill_step d r))"
    using Cons.prems by (simp add: bill_step_def distinct_update split: option.splits)
  then show ?case
    by (simp add: Cons.IH)
qed

lemma bill_loop_lookup:
  "map_of (foldl bill_step d rs) k =
     (if \<exists>r\<in>set rs. billed_key r = Some k
      then Some (get_or_zero d k + sum_list (map raw_len (filter (\<lambda>r. billed_key r = Some k) rs)))
      else map_of d k)"
proof (induction rs arbitrary: d)
  case Nil
  then show ?case by simp
next
  case (Cons r rs)
  have look: "map_of (bill_step d r) k =
      (if billed_key r = Some k then Some (get_or_zero d k + raw_len r) else map_of d k)"
    by (auto simp: bill_step_def update_conv' split: option.splits)
  have gz: "get_or_zero (bill_step d r) k =
      (if billed_key r = Some k then get_or_zero d k + raw_len r else get_or_zero d k)"
    by (simp add: get_or_zero_def look)
  show ?case
    by (simp add: Cons.IH look gz)
qed

lemma compute_progress_eq:
  "compute_progress records extent =
     (if progress_overflows records extent then Inl OverflowError
      else
        Inr \<lparr>route_extent = extent,
             overall_len = total_len (merge_intervals (map interval_of records)),
             overall_pct = pct_val (total_len (merge_intervals (map interval_of records))) extent,
             per_layer =
               map (\<lambda>(layer, intervals). (layer, layer_entry extent intervals))
                 (group_by_layer records),
             per_layer_per_bill =
               sort_key (\<lambda>x. (bp_bill x, bp_layer x))
                 (map (bill_entry extent) (foldl bill_step [] records))\<rparr>)"
proof -
  have seps: "\<forall>kv\<in>set (foldl bill_step [] records). CHR ''|'' \<in> set (fst kv)"
  proof
    fix kv assume "kv \<in> set (foldl bill_step [] records)"
    then have "fst kv \<in> fst ` set (foldl bill_step [] records)"
      by (rule imageI)
    then obtain r where "billed_key r = Some (fst kv)"
      unfolding bill_loop_keys by auto
    then show "CHR ''|'' \<in> set (fst kv)"
      by (rule billed_key_sep)
  qed
  have layers: "foldl (\<lambda>result (layer, intervals). AList.update layer (layer_entry extent intervals) result)
        [] (group_by_layer records) =
      map (\<lambda>(layer, intervals). (layer, layer_entry extent intervals)) (group_by_layer records)"
    by (rule result_loop_empty) (rule distinct_group_by_layer)
  have grp: "foldl (\<lambda>d r. setdefault_append d (r_layer r) (interval_of r)) [] records =
      group_by_layer records"
    by (simp add: group_by_layer_def)
  show ?thesis
    unfolding compute_progress_def progress_loop_split grp progress_overflows_def
    by (simp add: per_layer_loop_eq layers pct_of_eq per_bill_loop_eq [OF seps] Let_def)
qed

lemma compute_progress_zero:
  "compute_progress records 0 =
     Inr \<lparr>route_extent = 0,
          overall_len = total_len (merge_intervals (map interval_of records)),
          overall_pct = pct_val (total_len (merge_intervals (map interval_of records))) 0,
          per_layer =
            map (\<lambda>(layer, intervals). (layer, layer_entry 0 intervals)) (group_by_layer records),
          per_layer_per_bill =
            sort_key (\<lambda>x. (bp_bill x, bp_layer x))
              (map (bill_entry 0) (foldl bill_step [] records))\<rparr>"
  unfolding compute_progress_eq by (simp add: progress_overflows_def overflows_zero_extent)

lemma key_rejoin:
  assumes "CHR ''|'' \<in> set k"
  shows "takeWhile (\<lambda>c. c \<noteq> CHR ''|'') k @ ''|'' @ tl (dropWhile (\<lambda>c. c \<noteq> CHR ''|'') k) = k"
proof -
  have ne: "dropWhile (\<lambda>c. c \<noteq> CHR ''|'') k \<noteq> []"
    using assms by (auto simp: dropWhile_eq_Nil_conv)
  then have "\<not> (hd (dropWhile (\<lambda>c. c \<noteq> CHR ''|'') k) \<noteq> CHR ''|'')"
    by (rule hd_dropWhile)
  then have "dropWhile (\<lambda>c. c \<noteq> CHR ''|'') k = ''|'' @ tl (dropWhile (\<lambda>c. c \<noteq> CHR ''|'') k)"
    using ne by (cases "dropWhile (\<lambda>c. c \<noteq> CHR ''|'') k") simp_all
  then have "takeWhile (\<lambda>c. c \<noteq> CHR ''|'') k @ ''|'' @ tl (dropWhile (\<lambda>c. c \<noteq> CHR ''|'') k) =
      takeWhile (\<lambda>c. c \<noteq> CHR ''|'') k @ dropWhile (\<lambda>c. c \<noteq> CHR ''|'') k"
    by simp
  then show ?thesis
    by (simp only: takeWhile_dropWhile_id)
qed

text \<open>What one entry of \<open>per_layer_per_bill\<close> holds, in terms of the composite key.\<close>

lemma bill_entry_props:
  assumes "kv \<in> set (foldl bill_step [] records)"
  shows "bp_bill (bill_entry extent kv) @ ''|'' @ bp_layer (bill_entry extent kv) = fst kv"
    and "bp_len (bill_entry extent kv) =
           sum_list (map raw_len (filter (\<lambda>r. billed_key r = Some (fst kv)) records))"
    and "\<exists>r\<in>set records. billed_key r = Some (fst kv)"
    and "bp_pct (bill_entry extent kv) = pct_val (bp_len (bill_entry extent kv)) extent"
proof -
  have "fst kv \<in> fst ` set (foldl bill_step [] records)"
    using assms by (rule imageI)
  then show ex: "\<exists>r\<in>set records. billed_key r = Some (fst kv)"
    unfolding bill_loop_keys by auto
  then have sep: "CHR ''|'' \<in> set (fst kv)"
    by (auto dest: billed_key_sep)
  show "bp_bill (bill_entry extent kv) @ ''|'' @ bp_layer (bill_entry extent kv) = fst kv"
    using key_rejoin [OF sep] by (simp add: bill_entry_def)
  have dist: "distinct (map fst (foldl bill_step [] records))"
    by (rule bill_loop_distinct) simp
  have "map_of (foldl bill_step [] records) (fst kv) = Some (snd kv)"
    using dist assms by (cases kv) (simp add: map_of_eq_Some_iff)
  then have "snd kv =
      sum_list (map raw_len (filter (\<lambda>r. billed_key r = Some (fst kv)) records))"
    using ex by (simp add: bill_loop_lookup get_or_zero_def)
  then show "bp_len (bill_entry extent kv) =
      sum_list (map raw_len (filter (\<lambda>r. billed_key r = Some (fst kv)) records))"
    by (simp add: bill_entry_def)
  show "bp_pct (bill_entry extent kv) = pct_val (bp_len (bill_entry extent kv)) extent"
    by (simp add: bill_entry_def)
qed

lemma per_layer_lookup:
  "map_of (map (\<lambda>(layer, intervals). (layer, layer_entry extent intervals))
             (group_by_layer records)) l =
     (if l \<in> r_layer ` set records then Some (layer_entry extent (layer_intervals records l))
      else None)"
  by (simp add: map_of_mapped_values map_of_group_by_layer layer_intervals_def)

text \<open>
  Claim C6. For every record list, \<open>compute_progress\<close> with \<open>route_extent = 0\<close> raises no
  exception and yields 0 for every percentage field: \<open>overall_pct\<close>, every \<open>per_layer\<close>
  \<open>pct\<close> and every \<open>per_layer_per_bill\<close> \<open>pct\<close> are exactly 0. The \<open>len\<close> fields are still
  computed: the overall length is the merged coverage of all records, the length of a layer
  is the merged coverage of its records, and the length of a per-bill entry is the sum of the
  raw lengths of the records accumulated under its key.
\<close>

theorem compute_progress_zero_extent:
  "\<exists>p. compute_progress records 0 = Inr p \<and>
       overall_pct p = 0 \<and>
       (\<forall>kv\<in>set (per_layer p). lp_pct (snd kv) = 0) \<and>
       (\<forall>x\<in>set (per_layer_per_bill p). bp_pct x = 0) \<and>
       overall_len p = total_len (merge_intervals (map interval_of records)) \<and>
       (\<forall>l\<in>r_layer ` set records.
          \<exists>x. map_of (per_layer p) l = Some x \<and>
              lp_len x = total_len (merge_intervals (layer_intervals records l))) \<and>
       (\<forall>x\<in>set (per_layer_per_bill p).
          bp_len x =
            sum_list (map raw_len
              (filter (\<lambda>r. billed_key r = Some (bp_bill x @ ''|'' @ bp_layer x)) records)))"
proof -
  define p where "p =
     \<lparr>route_extent = 0,
      overall_len = total_len (merge_intervals (map interval_of records)),
      overall_pct = pct_val (total_len (merge_intervals (map interval_of records))) 0,
      per_layer =
        map (\<lambda>(layer, intervals). (layer, layer_entry 0 intervals)) (group_by_layer records),
      per_layer_per_bill =
        sort_key (\<lambda>x. (bp_bill x, bp_layer x))
          (map (bill_entry 0) (foldl bill_step [] records))\<rparr>"
  have run: "compute_progress records 0 = Inr p"
    unfolding p_def by (rule compute_progress_zero)
  have opct: "overall_pct p = 0"
    by (simp add: p_def pct_val_def)
  have lpct: "\<forall>kv\<in>set (per_layer p). lp_pct (snd kv) = 0"
    by (auto simp: p_def layer_entry_def pct_val_def)
  have bpct: "\<forall>x\<in>set (per_layer_per_bill p). bp_pct x = 0"
    by (auto simp: p_def bill_entry_def pct_val_def)
  have olen: "overall_len p = total_len (merge_intervals (map interval_of records))"
    by (simp add: p_def)
  have llen: "\<forall>l\<in>r_layer ` set records.
          \<exists>x. map_of (per_layer p) l = Some x \<and>
              lp_len x = total_len (merge_intervals (layer_intervals records l))"
  proof
    fix l assume l: "l \<in> r_layer ` set records"
    have "map_of (per_layer p) l = Some (layer_entry 0 (layer_intervals records l))"
      using l by (simp only: p_def progress.simps per_layer_lookup if_True)
    then show "\<exists>x. map_of (per_layer p) l = Some x \<and>
              lp_len x = total_len (merge_intervals (layer_intervals records l))"
      by (simp add: layer_entry_def)
  qed
  have blen: "\<forall>x\<in>set (per_layer_per_bill p).
          bp_len x =
            sum_list (map raw_len
              (filter (\<lambda>r. billed_key r = Some (bp_bill x @ ''|'' @ bp_layer x)) records))"
  proof
    fix x assume "x \<in> set (per_layer_per_bill p)"
    then obtain kv where kv: "kv \<in> set (foldl bill_step [] records)" and x: "x = bill_entry 0 kv"
      by (auto simp: p_def)
    show "bp_len x =
            sum_list (map raw_len
              (filter (\<lambda>r. billed_key r = Some (bp_bill x @ ''|'' @ bp_layer x)) records))"
      unfolding x bill_entry_props(1) [OF kv] by (rule bill_entry_props(2) [OF kv])
  qed
  show ?thesis
    using run opct lpct bpct olen llen blen by blast
qed

theorem compute_progress_zero_extent_witness:
  "compute_progress
     [\<lparr>r_layer = ''L'', r_start = 0, r_end = 100, r_bill = Some ''B1'', r_month = None\<rparr>,
      \<lparr>r_layer = ''L'', r_start = 50, r_end = 150, r_bill = Some ''B1'', r_month = None\<rparr>] 0 =
     Inr \<lparr>route_extent = 0, overall_len = 150, overall_pct = 0,
          per_layer = [(''L'', \<lparr>lp_len = 150, lp_pct = 0\<rparr>)],
          per_layer_per_bill =
            [\<lparr>bp_bill = ''B1'', bp_layer = ''L'', bp_len = 200, bp_pct = 0\<rparr>]\<rparr> \<and>
   (''L'', \<lparr>lp_len = 150, lp_pct = 0\<rparr>) \<in> set [(''L'', \<lparr>lp_len = 150, lp_pct = 0\<rparr>)] \<and>
   lp_pct (snd (''L'', \<lparr>lp_len = 150, lp_pct = 0\<rparr>)) = 0 \<and>
   \<lparr>bp_bill = ''B1'', bp_layer = ''L'', bp_len = 200, bp_pct = 0\<rparr> \<in>
     set [\<lparr>bp_bill = ''B1'', bp_layer = ''L'', bp_len = 200, bp_pct = 0\<rparr>] \<and>
   bp_pct \<lparr>bp_bill = ''B1'', bp_layer = ''L'', bp_len = 200, bp_pct = 0\<rparr> = 0 \<and>
   ''L'' \<in> r_layer ` set
     [\<lparr>r_layer = ''L'', r_start = 0, r_end = 100, r_bill = Some ''B1'', r_month = None\<rparr>,
      \<lparr>r_layer = ''L'', r_start = 50, r_end = 150, r_bill = Some ''B1'', r_month = None\<rparr>]"
proof -
  have ev: "compute_progress
     [\<lparr>r_layer = ''L'', r_start = 0, r_end = 100, r_bill = Some ''B1'', r_month = None\<rparr>,
      \<lparr>r_layer = ''L'', r_start = 50, r_end = 150, r_bill = Some ''B1'', r_month = None\<rparr>] 0 =
     Inr \<lparr>route_extent = 0, overall_len = 150, overall_pct = 0,
          per_layer = [(''L'', \<lparr>lp_len = 150, lp_pct = 0\<rparr>)],
          per_layer_per_bill =
            [\<lparr>bp_bill = ''B1'', bp_layer = ''L'', bp_len = 200, bp_pct = 0\<rparr>]\<rparr>"
    by (simp add: compute_progress_def progress_step_def setdefault_append_def get_or_zero_def
          interval_of_def merge_intervals_def merge_step_def total_len_def pct_of_def
          split_first_def)
  obtain p where p: "compute_progress
     [\<lparr>r_layer = ''L'', r_start = 0, r_end = 100, r_bill = Some ''B1'', r_month = None\<rparr>,
      \<lparr>r_layer = ''L'', r_start = 50, r_end = 150, r_bill = Some ''B1'', r_month = None\<rparr>] 0 =
     Inr p"
    and pl: "\<forall>kv\<in>set (per_layer p). lp_pct (snd kv) = 0"
    and pb: "\<forall>x\<in>set (per_layer_per_bill p). bp_pct x = 0"
    using compute_progress_zero_extent
      [of "[\<lparr>r_layer = ''L'', r_start = 0, r_end = 100, r_bill = Some ''B1'', r_month = None\<rparr>,
            \<lparr>r_layer = ''L'', r_start = 50, r_end = 150, r_bill = Some ''B1'', r_month = None\<rparr>]"]
    by blast
  have eq: "p = \<lparr>route_extent = 0, overall_len = 150, overall_pct = 0,
          per_layer = [(''L'', \<lparr>lp_len = 150, lp_pct = 0\<rparr>)],
          per_layer_per_bill =
            [\<lparr>bp_bill = ''B1'', bp_layer = ''L'', bp_len = 200, bp_pct = 0\<rparr>]\<rparr>"
    using p ev by simp
  show ?thesis
    using ev pl pb unfolding eq by simp
qed

section \<open>The composite key of the per-bill aggregation\<close>

lemma key_split:
  assumes "CHR ''|'' \<notin> set b"
  shows "takeWhile (\<lambda>c. c \<noteq> CHR ''|'') (b @ CHR ''|'' # l) = b"
    and "tl (dropWhile (\<lambda>c. c \<noteq> CHR ''|'') (b @ CHR ''|'' # l)) = l"
proof -
  have all: "\<And>x. x \<in> set b \<Longrightarrow> x \<noteq> CHR ''|''"
    using assms by auto
  have "takeWhile (\<lambda>c. c \<noteq> CHR ''|'') (b @ CHR ''|'' # l) =
        b @ takeWhile (\<lambda>c. c \<noteq> CHR ''|'') (CHR ''|'' # l)"
    by (rule takeWhile_append2) (rule all)
  then show "takeWhile (\<lambda>c. c \<noteq> CHR ''|'') (b @ CHR ''|'' # l) = b"
    by simp
  have "dropWhile (\<lambda>c. c \<noteq> CHR ''|'') (b @ CHR ''|'' # l) =
        dropWhile (\<lambda>c. c \<noteq> CHR ''|'') (CHR ''|'' # l)"
    by (rule dropWhile_append2) (rule all)
  then show "tl (dropWhile (\<lambda>c. c \<noteq> CHR ''|'') (b @ CHR ''|'' # l)) = l"
    by simp
qed

lemma billed_key_iff:
  assumes "CHR ''|'' \<notin> set b0" and "b0 \<noteq> []"
    and "\<forall>b. r_bill r = Some b \<longrightarrow> CHR ''|'' \<notin> set b"
  shows "(billed_key r = Some (b0 @ CHR ''|'' # l0)) = (r_bill r = Some b0 \<and> r_layer r = l0)"
proof
  assume k: "billed_key r = Some (b0 @ CHR ''|'' # l0)"
  then obtain b where b: "r_bill r = Some b" and ne: "b \<noteq> []"
    and eq: "b @ CHR ''|'' # r_layer r = b0 @ CHR ''|'' # l0"
    by (auto simp: billed_key_def split: option.splits if_splits)
  have nb: "CHR ''|'' \<notin> set b"
    using assms(3) b by simp
  have "takeWhile (\<lambda>c. c \<noteq> CHR ''|'') (b @ CHR ''|'' # r_layer r) =
        takeWhile (\<lambda>c. c \<noteq> CHR ''|'') (b0 @ CHR ''|'' # l0)"
    by (simp only: eq)
  then have bb: "b = b0"
    by (simp only: key_split(1) [OF nb] key_split(1) [OF assms(1)])
  have "tl (dropWhile (\<lambda>c. c \<noteq> CHR ''|'') (b @ CHR ''|'' # r_layer r)) =
        tl (dropWhile (\<lambda>c. c \<noteq> CHR ''|'') (b0 @ CHR ''|'' # l0))"
    by (simp only: eq)
  then have "r_layer r = l0"
    by (simp only: key_split(2) [OF nb] key_split(2) [OF assms(1)])
  then show "r_bill r = Some b0 \<and> r_layer r = l0"
    using b bb by simp
next
  assume "r_bill r = Some b0 \<and> r_layer r = l0"
  then show "billed_key r = Some (b0 @ CHR ''|'' # l0)"
    using assms(2) by (simp add: billed_key_def)
qed

lemma bill_entry_roundtrip:
  assumes nosep: "\<forall>r\<in>set records. \<forall>b. r_bill r = Some b \<longrightarrow> CHR ''|'' \<notin> set b"
    and kv: "kv \<in> set (foldl bill_step [] records)"
  shows "bp_bill (bill_entry extent kv) \<noteq> [] \<and>
         (\<exists>r\<in>set records. r_bill r = Some (bp_bill (bill_entry extent kv)) \<and>
                          r_layer r = bp_layer (bill_entry extent kv)) \<and>
         bp_len (bill_entry extent kv) =
           sum_list (map raw_len
             (filter (\<lambda>r. r_bill r = Some (bp_bill (bill_entry extent kv)) \<and>
                          r_layer r = bp_layer (bill_entry extent kv)) records))"
proof -
  obtain r0 where r0: "r0 \<in> set records" and k0: "billed_key r0 = Some (fst kv)"
    using bill_entry_props(3) [OF kv] by blast
  obtain b0 where b0: "r_bill r0 = Some b0" and ne: "b0 \<noteq> []"
    and key: "fst kv = b0 @ CHR ''|'' # r_layer r0"
    using k0 by (auto simp: billed_key_def split: option.splits if_splits)
  have nb: "CHR ''|'' \<notin> set b0"
    using nosep r0 b0 by blast
  have bill: "bp_bill (bill_entry extent kv) = b0"
    by (simp add: bill_entry_def key key_split(1) [OF nb])
  have layer: "bp_layer (bill_entry extent kv) = r_layer r0"
    by (simp add: bill_entry_def key key_split(2) [OF nb])
  have same: "filter (\<lambda>r. billed_key r = Some (fst kv)) records =
      filter (\<lambda>r. r_bill r = Some b0 \<and> r_layer r = r_layer r0) records"
  proof (rule filter_cong [OF refl])
    fix r assume "r \<in> set records"
    then have "\<forall>b. r_bill r = Some b \<longrightarrow> CHR ''|'' \<notin> set b"
      using nosep by blast
    then show "(billed_key r = Some (fst kv)) = (r_bill r = Some b0 \<and> r_layer r = r_layer r0)"
      unfolding key by (rule billed_key_iff [OF nb ne])
  qed
  have len: "bp_len (bill_entry extent kv) =
      sum_list (map raw_len (filter (\<lambda>r. r_bill r = Some b0 \<and> r_layer r = r_layer r0) records))"
    using bill_entry_props(2) [OF kv] by (simp only: same)
  show ?thesis
    unfolding bill layer using ne r0 b0 len by blast
qed

lemma bill_entry_complete:
  assumes nb: "CHR ''|'' \<notin> set b" and ne: "b \<noteq> []"
    and r: "r \<in> set records" and b: "r_bill r = Some b"
  shows "\<exists>kv\<in>set (foldl bill_step [] records).
           bp_bill (bill_entry extent kv) = b \<and> bp_layer (bill_entry extent kv) = r_layer r"
proof -
  have k: "billed_key r = Some (b @ CHR ''|'' # r_layer r)"
    using b ne by (simp add: billed_key_def)
  then have "b @ CHR ''|'' # r_layer r \<in> fst ` set (foldl bill_step [] records)"
    unfolding bill_loop_keys using r by auto
  then obtain kv where kv: "kv \<in> set (foldl bill_step [] records)"
    and key: "fst kv = b @ CHR ''|'' # r_layer r"
    by auto
  have "bp_bill (bill_entry extent kv) = b \<and> bp_layer (bill_entry extent kv) = r_layer r"
    by (simp add: bill_entry_def key key_split [OF nb])
  then show ?thesis
    using kv by blast
qed

text \<open>
  Claim C10. \<open>compute_progress\<close> builds the key of the per-(bill, layer) aggregation as the
  string \<open>bill|layer\<close> and later splits it at the first \<open>|\<close>. For every record list in which
  no bill tag contains the character \<open>|\<close>, and every summary that \<open>compute_progress\<close>
  returns for it: every \<open>per_layer_per_bill\<close> entry has the bill (a non-empty one) and the
  layer of a contributing record, its length is the sum of the raw lengths of all records
  with that bill and that layer, and every record with a non-empty bill has its entry. The
  split of a key never fails, as every key holds the separator: \<open>compute_progress\<close> returns a
  summary unless one of its quotients is out of the range of a float, and then it raises
  \<open>OverflowError\<close>. Whereas for the record with bill \<open>a|b\<close> and layer \<open>L\<close> the entry comes
  back with bill \<open>a\<close> and layer \<open>b|L\<close>, which differ from the record's.
\<close>

theorem per_bill_key_roundtrip:
  "((\<forall>r\<in>set records. \<forall>b. r_bill r = Some b \<longrightarrow> CHR ''|'' \<notin> set b) \<longrightarrow>
      (\<forall>p. compute_progress records extent = Inr p \<longrightarrow>
           (\<forall>x\<in>set (per_layer_per_bill p).
              bp_bill x \<noteq> [] \<and>
              (\<exists>r\<in>set records. r_bill r = Some (bp_bill x) \<and> r_layer r = bp_layer x) \<and>
              bp_len x =
                sum_list (map raw_len
                  (filter (\<lambda>r. r_bill r = Some (bp_bill x) \<and> r_layer r = bp_layer x) records))) \<and>
           (\<forall>r\<in>set records. \<forall>b. r_bill r = Some b \<and> b \<noteq> [] \<longrightarrow>
              (\<exists>x\<in>set (per_layer_per_bill p). bp_bill x = b \<and> bp_layer x = r_layer r)))) \<and>
   ((\<exists>p. compute_progress records extent = Inr p) = (\<not> progress_overflows records extent)) \<and>
   (progress_overflows records extent \<longrightarrow>
      compute_progress records extent = Inl OverflowError) \<and>
   (\<exists>p x. compute_progress
       [\<lparr>r_layer = ''L'', r_start = 0, r_end = 10, r_bill = Some ''a|b'', r_month = None\<rparr>] 100 =
       Inr p \<and>
       per_layer_per_bill p = [x] \<and> bp_bill x = ''a'' \<and> bp_layer x = ''b|L'' \<and>
       Some (bp_bill x) \<noteq>
         r_bill \<lparr>r_layer = ''L'', r_start = 0, r_end = 10, r_bill = Some ''a|b'', r_month = None\<rparr> \<and>
       bp_layer x \<noteq>
         r_layer \<lparr>r_layer = ''L'', r_start = 0, r_end = 10, r_bill = Some ''a|b'', r_month = None\<rparr>)"
proof (intro conjI impI allI)
  fix p
  assume nosep: "\<forall>r\<in>set records. \<forall>b. r_bill r = Some b \<longrightarrow> CHR ''|'' \<notin> set b"
    and run: "compute_progress records extent = Inr p"
  have p: "p =
     \<lparr>route_extent = extent,
      overall_len = total_len (merge_intervals (map interval_of records)),
      overall_pct = pct_val (total_len (merge_intervals (map interval_of records))) extent,
      per_layer =
        map (\<lambda>(layer, intervals). (layer, layer_entry extent intervals)) (group_by_layer records),
      per_layer_per_bill =
        sort_key (\<lambda>x. (bp_bill x, bp_layer x))
          (map (bill_entry extent) (foldl bill_step [] records))\<rparr>"
    using run unfolding compute_progress_eq by (simp split: if_splits)
  have entries: "set (per_layer_per_bill p) = bill_entry extent ` set (foldl bill_step [] records)"
    by (simp add: p)
  show "\<forall>x\<in>set (per_layer_per_bill p).
              bp_bill x \<noteq> [] \<and>
              (\<exists>r\<in>set records. r_bill r = Some (bp_bill x) \<and> r_layer r = bp_layer x) \<and>
              bp_len x =
                sum_list (map raw_len
                  (filter (\<lambda>r. r_bill r = Some (bp_bill x) \<and> r_layer r = bp_layer x) records))"
    unfolding entries using bill_entry_roundtrip [OF nosep] by blast
  show "\<forall>r\<in>set records. \<forall>b. r_bill r = Some b \<and> b \<noteq> [] \<longrightarrow>
              (\<exists>x\<in>set (per_layer_per_bill p). bp_bill x = b \<and> bp_layer x = r_layer r)"
  proof (intro ballI allI impI)
    fix r b assume r: "r \<in> set records" and b: "r_bill r = Some b \<and> b \<noteq> []"
    have nb: "CHR ''|'' \<notin> set b"
      using nosep r b by blast
    obtain kv where "kv \<in> set (foldl bill_step [] records)"
      and "bp_bill (bill_entry extent kv) = b \<and> bp_layer (bill_entry extent kv) = r_layer r"
      using bill_entry_complete [OF nb _ r, of extent] b by blast
    then show "\<exists>x\<in>set (per_layer_per_bill p). bp_bill x = b \<and> bp_layer x = r_layer r"
      unfolding entries by blast
  qed
next
  show "(\<exists>p. compute_progress records extent = Inr p) = (\<not> progress_overflows records extent)"
    unfolding compute_progress_eq by simp
next
  assume "progress_overflows records extent"
  then show "compute_progress records extent = Inl OverflowError"
    unfolding compute_progress_eq by simp
next
  have ev: "compute_progress
       [\<lparr>r_layer = ''L'', r_start = 0, r_end = 10, r_bill = Some ''a|b'', r_month = None\<rparr>] 100 =
     Inr \<lparr>route_extent = 100, overall_len = 10, overall_pct = 10,
          per_layer = [(''L'', \<lparr>lp_len = 10, lp_pct = 10\<rparr>)],
          per_layer_per_bill =
            [\<lparr>bp_bill = ''a'', bp_layer = ''b|L'', bp_len = 10, bp_pct = 10\<rparr>]\<rparr>"
    using float_limit_large
    by (simp add: compute_progress_def progress_step_def setdefault_append_def get_or_zero_def
          interval_of_def merge_intervals_def merge_step_def total_len_def pct_of_def
          true_div_def split_first_def)
  show "\<exists>p x. compute_progress
       [\<lparr>r_layer = ''L'', r_start = 0, r_end = 10, r_bill = Some ''a|b'', r_month = None\<rparr>] 100 =
       Inr p \<and>
       per_layer_per_bill p = [x] \<and> bp_bill x = ''a'' \<and> bp_layer x = ''b|L'' \<and>
       Some (bp_bill x) \<noteq>
         r_bill \<lparr>r_layer = ''L'', r_start = 0, r_end = 10, r_bill = Some ''a|b'', r_month = None\<rparr> \<and>
       bp_layer x \<noteq>
         r_layer \<lparr>r_layer = ''L'', r_start = 0, r_end = 10, r_bill = Some ''a|b'', r_month = None\<rparr>"
    unfolding ev by simp
qed

theorem per_bill_key_roundtrip_witness:
  "CHR ''|'' \<notin> set ''B1'' \<and> CHR ''|'' \<notin> set ''B2'' \<and>
   compute_progress
     [\<lparr>r_layer = ''L'', r_start = 0, r_end = 100, r_bill = Some ''B1'', r_month = None\<rparr>,
      \<lparr>r_layer = ''M'', r_start = 0, r_end = 30, r_bill = Some ''B2'', r_month = None\<rparr>,
      \<lparr>r_layer = ''L'', r_start = 50, r_end = 150, r_bill = Some ''B1'', r_month = None\<rparr>] 200 =
     Inr \<lparr>route_extent = 200, overall_len = 150, overall_pct = 75,
          per_layer = [(''L'', \<lparr>lp_len = 150, lp_pct = 75\<rparr>), (''M'', \<lparr>lp_len = 30, lp_pct = 15\<rparr>)],
          per_layer_per_bill =
            [\<lparr>bp_bill = ''B1'', bp_layer = ''L'', bp_len = 200, bp_pct = 100\<rparr>,
             \<lparr>bp_bill = ''B2'', bp_layer = ''M'', bp_len = 30, bp_pct = 15\<rparr>]\<rparr> \<and>
   bp_len \<lparr>bp_bill = ''B1'', bp_layer = ''L'', bp_len = 200, bp_pct = 100\<rparr> =
     sum_list (map raw_len
       [\<lparr>r_layer = ''L'', r_start = 0, r_end = 100, r_bill = Some ''B1'', r_month = None\<rparr>,
        \<lparr>r_layer = ''L'', r_start = 50, r_end = 150, r_bill = Some ''B1'', r_month = None\<rparr>])"
proof -
  let ?recs =
    "[\<lparr>r_layer = ''L'', r_start = 0, r_end = 100, r_bill = Some ''B1'', r_month = None\<rparr>,
      \<lparr>r_layer = ''M'', r_start = 0, r_end = 30, r_bill = Some ''B2'', r_month = None\<rparr>,
      \<lparr>r_layer = ''L'', r_start = 50, r_end = 150, r_bill = Some ''B1'', r_month = None\<rparr>]"
  let ?res =
    "\<lparr>route_extent = 200, overall_len = 150, overall_pct = 75,
      per_layer = [(''L'', \<lparr>lp_len = 150, lp_pct = 75\<rparr>), (''M'', \<lparr>lp_len = 30, lp_pct = 15\<rparr>)],
      per_layer_per_bill =
        [\<lparr>bp_bill = ''B1'', bp_layer = ''L'', bp_len = 200, bp_pct = 100\<rparr>,
         \<lparr>bp_bill = ''B2'', bp_layer = ''M'', bp_len = 30, bp_pct = 15\<rparr>]\<rparr>"
  have ev: "compute_progress ?recs 200 = Inr ?res"
    using float_limit_large
    by (simp add: compute_progress_def progress_step_def setdefault_append_def get_or_zero_def
          interval_of_def merge_intervals_def merge_step_def total_len_def pct_of_def
          true_div_def split_first_def)
  have nosep: "\<forall>r\<in>set ?recs. \<forall>b. r_bill r = Some b \<longrightarrow> CHR ''|'' \<notin> set b"
    by simp
  have sound: "\<forall>x\<in>set (per_layer_per_bill ?res).
              bp_bill x \<noteq> [] \<and>
              (\<exists>r\<in>set ?recs. r_bill r = Some (bp_bill x) \<and> r_layer r = bp_layer x) \<and>
              bp_len x =
                sum_list (map raw_len
                  (filter (\<lambda>r. r_bill r = Some (bp_bill x) \<and> r_layer r = bp_layer x) ?recs))"
    using per_bill_key_roundtrip
      [of ?recs 200, THEN conjunct1, THEN mp, OF nosep, THEN spec, THEN mp, OF ev]
    by blast
  have "bp_len \<lparr>bp_bill = ''B1'', bp_layer = ''L'', bp_len = 200, bp_pct = 100\<rparr> =
     sum_list (map raw_len
       (filter (\<lambda>r. r_bill r = Some ''B1'' \<and> r_layer r = ''L'') ?recs))"
    using sound by simp
  then show ?thesis
    using ev by simp
qed

section \<open>The two front ends define the same engine\<close>

lemma st_CHUNK_SIZE_eq: "st_CHUNK_SIZE = CHUNK_SIZE"
  by (simp add: st_CHUNK_SIZE_def CHUNK_SIZE_def)

lemma st_chunk_loop_eq: "st_chunk_loop r c c_end acc = chunk_loop r c c_end acc"
proof (induction r c c_end acc rule: chunk_loop.induct)
  case (1 r c c_end segs chks)
  show ?case
  proof (cases "c \<le> c_end")
    case True
    note ih = "1" [OF True refl refl refl refl]
    have l: "st_chunk_loop r c c_end (segs, chks) =
        st_chunk_loop r (c + CHUNK_SIZE) c_end
          (if max (r_start r) c < min (r_end r) (c + CHUNK_SIZE)
           then segs @
                [\<lparr>chunk_start = c,
                  chunk_label = str_int c @ ''-'' @ str_int (c + CHUNK_SIZE),
                  seg_layer = r_layer r,
                  rel_start = max (r_start r) c - c,
                  rel_end = min (r_end r) (c + CHUNK_SIZE) - c,
                  abs_start = max (r_start r) c,
                  abs_end = min (r_end r) (c + CHUNK_SIZE)\<rparr>]
           else segs, insert c chks)"
      using True
      by (subst st_chunk_loop.simps)
         (simp add: st_CHUNK_SIZE_eq Let_def del: st_chunk_loop.simps)
    have r: "chunk_loop r c c_end (segs, chks) =
        chunk_loop r (c + CHUNK_SIZE) c_end
          (if max (r_start r) c < min (r_end r) (c + CHUNK_SIZE)
           then segs @
                [\<lparr>chunk_start = c,
                  chunk_label = str_int c @ ''-'' @ str_int (c + CHUNK_SIZE),
                  seg_layer = r_layer r,
                  rel_start = max (r_start r) c - c,
                  rel_end = min (r_end r) (c + CHUNK_SIZE) - c,
                  abs_start = max (r_start r) c,
                  abs_end = min (r_end r) (c + CHUNK_SIZE)\<rparr>]
           else segs, insert c chks)"
      using True
      by (subst chunk_loop.simps) (simp add: Let_def del: chunk_loop.simps)
    show ?thesis
      unfolding l r using ih by (simp only: Let_def)
  next
    case False
    then show ?thesis
      by (subst st_chunk_loop.simps, subst chunk_loop.simps) simp
  qed
qed

lemma st_segment_step_eq: "st_segment_step = segment_step"
proof (intro ext)
  fix acc r
  show "st_segment_step acc r = segment_step acc r"
    unfolding st_segment_step_def segment_step_def st_chunk_loop_eq st_CHUNK_SIZE_eq
    by (rule refl)
qed

lemma st_build_stretch_segments_eq: "st_build_stretch_segments = build_stretch_segments"
proof (intro ext)
  fix records
  show "st_build_stretch_segments records = build_stretch_segments records"
    unfolding st_build_stretch_segments_def build_stretch_segments_def st_segment_step_eq
    by (rule refl)
qed

lemma st_merge_step_eq: "st_merge_step = merge_step"
proof (intro ext)
  fix merged cur
  show "st_merge_step merged cur = merge_step merged cur"
    unfolding st_merge_step_def merge_step_def
    by (rule refl)
qed

lemma st_merge_intervals_eq: "st_merge_intervals = merge_intervals"
proof (intro ext)
  fix intervals
  show "st_merge_intervals intervals = merge_intervals intervals"
    unfolding st_merge_intervals_def merge_intervals_def st_merge_step_eq
    by (rule refl)
qed

lemma st_interval_of_eq: "st_interval_of = interval_of"
proof (intro ext)
  fix r
  show "st_interval_of r = interval_of r"
    unfolding st_interval_of_def interval_of_def
    by (rule refl)
qed

lemma st_group_by_layer_eq: "st_group_by_layer = group_by_layer"
proof (intro ext)
  fix records
  show "st_group_by_layer records = group_by_layer records"
    unfolding st_group_by_layer_def group_by_layer_def st_interval_of_eq
    by (rule refl)
qed

lemma st_overlap_body_eq: "st_overlap_body = overlap_body"
proof (intro ext)
  fix intervals i overlaps j
  show "st_overlap_body intervals i overlaps j = overlap_body intervals i overlaps j"
    unfolding st_overlap_body_def overlap_body_def
    by (rule refl)
qed

lemma st_pairwise_overlaps_eq: "st_pairwise_overlaps = pairwise_overlaps"
proof (intro ext)
  fix intervals
  show "st_pairwise_overlaps intervals = pairwise_overlaps intervals"
    unfolding st_pairwise_overlaps_def pairwise_overlaps_def st_overlap_body_eq
    by (rule refl)
qed

lemma st_with_len_eq: "st_with_len = with_len"
proof (intro ext)
  fix m
  show "st_with_len m = with_len m"
    unfolding st_with_len_def with_len_def
    by (rule refl)
qed

lemma st_find_overlaps_within_layer_eq: "st_find_overlaps_within_layer = find_overlaps_within_layer"
proof (intro ext)
  fix records
  show "st_find_overlaps_within_layer records = find_overlaps_within_layer records"
    unfolding st_find_overlaps_within_layer_def find_overlaps_within_layer_def st_group_by_layer_eq st_with_len_eq st_merge_intervals_eq st_pairwise_overlaps_eq
    by (rule refl)
qed

lemma st_gap_step_eq: "st_gap_step = gap_step"
proof (intro ext)
  fix st seg
  show "st_gap_step st seg = gap_step st seg"
    unfolding st_gap_step_def gap_step_def
    by (rule refl)
qed

lemma st_layer_gaps_eq: "st_layer_gaps = layer_gaps"
proof (intro ext)
  fix a b intervals
  show "st_layer_gaps a b intervals = layer_gaps a b intervals"
    unfolding st_layer_gaps_def layer_gaps_def st_gap_step_eq st_merge_intervals_eq
    by (rule refl)
qed

lemma st_find_gaps_per_layer_eq: "st_find_gaps_per_layer = find_gaps_per_layer"
proof (intro ext)
  fix records
  show "st_find_gaps_per_layer records = find_gaps_per_layer records"
    unfolding st_find_gaps_per_layer_def find_gaps_per_layer_def st_group_by_layer_eq st_layer_gaps_eq
    by (rule refl)
qed

lemma st_excluded_eq: "st_excluded = excluded"
proof (intro ext)
  fix flt tag
  show "st_excluded flt tag = excluded flt tag"
    unfolding st_excluded_def excluded_def
    by (rule refl)
qed

lemma st_filter_step_eq: "st_filter_step = filter_step"
proof (intro ext)
  fix fb fm out r
  show "st_filter_step fb fm out r = filter_step fb fm out r"
    unfolding st_filter_step_def filter_step_def st_excluded_eq
    by (rule refl)
qed

lemma st_filter_records_eq: "st_filter_records = filter_records"
proof (intro ext)
  fix records fb fm
  show "st_filter_records records fb fm = filter_records records fb fm"
    unfolding st_filter_records_def filter_records_def st_filter_step_eq
    by (rule refl)
qed

lemma st_pct_of_eq: "st_pct_of = pct_of"
proof (intro ext)
  fix lng extent
  show "st_pct_of lng extent = pct_of lng extent"
    unfolding st_pct_of_def pct_of_def
    by (rule refl)
qed

lemma st_progress_step_eq: "st_progress_step = progress_step"
proof (intro ext)
  fix acc r
  show "st_progress_step acc r = progress_step acc r"
    unfolding st_progress_step_def progress_step_def st_interval_of_eq
    by (rule refl)
qed

lemma st_total_len_eq: "st_total_len = total_len"
proof (intro ext)
  fix merged
  show "st_total_len merged = total_len merged"
    unfolding st_total_len_def total_len_def
    by (rule refl)
qed

lemma st_per_layer_loop_eq: "st_per_layer_loop e items acc = per_layer_loop e items acc"
proof (induction items arbitrary: acc)
  case Nil
  then show ?case by simp
next
  case (Cons kv items)
  obtain k v where kv: "kv = (k, v)" by (cases kv)
  show ?case
    unfolding kv
    by (simp add: Cons.IH st_merge_intervals_eq st_total_len_eq st_pct_of_eq Let_def
          split: sum.splits)
qed

lemma st_per_bill_loop_eq: "st_per_bill_loop e items acc = per_bill_loop e items acc"
proof (induction items arbitrary: acc)
  case Nil
  then show ?case by simp
next
  case (Cons kv items)
  obtain k v where kv: "kv = (k, v)" by (cases kv)
  show ?case
    unfolding kv
    by (simp add: Cons.IH st_pct_of_eq split: sum.splits prod.splits)
qed

lemma st_compute_progress_eq: "st_compute_progress = compute_progress"
proof (intro ext)
  fix records extent
  show "st_compute_progress records extent = compute_progress records extent"
    unfolding st_compute_progress_def compute_progress_def st_progress_step_eq st_per_layer_loop_eq st_per_bill_loop_eq st_interval_of_eq st_merge_intervals_eq st_total_len_eq st_pct_of_eq
    by (rule refl)
qed

text \<open>
  Claim C8. The two front ends implement the same engine: for every input, each of
  \<open>merge_intervals\<close>, \<open>find_overlaps_within_layer\<close>, \<open>find_gaps_per_layer\<close>,
  \<open>build_stretch_segments\<close>, \<open>filter_records\<close> and \<open>compute_progress\<close> as defined in
  \<open>app_dash.py\<close> returns exactly the result of the function of the same name defined in
  \<open>app_streamlit.py\<close>.
\<close>

theorem front_ends_same_engine:
  "st_merge_intervals intervals = merge_intervals intervals \<and>
   st_find_overlaps_within_layer records = find_overlaps_within_layer records \<and>
   st_find_gaps_per_layer records = find_gaps_per_layer records \<and>
   st_build_stretch_segments records = build_stretch_segments records \<and>
   st_filter_records records filter_bills filter_months =
     filter_records records filter_bills filter_months \<and>
   st_compute_progress records extent = compute_progress records extent"
  by (simp add: st_merge_intervals_eq st_find_overlaps_within_layer_eq
        st_find_gaps_per_layer_eq st_build_stretch_segments_eq st_filter_records_eq
        st_compute_progress_eq)

end
